theory Spec2Isabelle
  imports Complex_Main "HOL-Library.Word" "HOL-Library.Sublist" "HOL-Library.Code_Target_Numeral"
begin

unbundle bit_operations_syntax

section \<open>Firmware data model\<close>

text \<open>
  The tag and anchor sketches share one design: the radio interrupt handlers only enqueue
  an \<open>EventRec\<close> into a 64-slot array indexed by two \<open>uint8_t\<close> counters, and
  \<open>loop()\<close> turns the queued records into UDP text lines.
\<close>

datatype role = TAG | ANCHOR

record EventRec =
  kind :: char
  dev_ts :: "64 word"

text \<open>
  The global variables of a sketch: the queue \<open>q\<close>, \<open>q_head\<close>, \<open>q_tail\<close>,
  \<open>last_hb\<close>, and what has been written so far to the serial port, to the event socket
  \<open>UWB_EVT\<close> (one list entry per datagram) and to the distance socket \<open>UWB_UDP\<close>.
\<close>

record fw =
  q :: "EventRec list"
  q_head :: "8 word"
  q_tail :: "8 word"
  last_hb :: "32 word"
  serial_out :: string
  evt_out :: "string list"
  udp_out :: "string list"

definition fw_init :: fw where
  "fw_init = \<lparr> q = replicate 64 \<lparr>kind = CHR 0x00, dev_ts = 0\<rparr>, q_head = 0, q_tail = 0,
     last_hb = 0, serial_out = [], evt_out = [], udp_out = [] \<rparr>"

section \<open>The interrupt-to-loop queue\<close>

text \<open>
  \<open>isr_push\<close>: \<open>nx = (uint8_t)((q_head + 1) & 63)\<close>; when \<open>nx == q_tail\<close> the
  function returns at once, otherwise both fields of slot \<open>q_head\<close> are written and
  \<open>q_head\<close> becomes \<open>nx\<close>.
\<close>

definition isr_push :: "char \<Rightarrow> 64 word \<Rightarrow> fw \<Rightarrow> fw" where
  "isr_push k ts s =
     (let nx = (q_head s + 1) AND 63 in
      if nx = q_tail s then s
      else s\<lparr> q := (q s)[unat (q_head s) := \<lparr>kind = k, dev_ts = ts\<rparr>], q_head := nx \<rparr>)"

text \<open>
  \<open>pop\<close>: returns \<open>false\<close> (here \<open>None\<close>) when \<open>q_tail == q_head\<close>, otherwise copies
  slot \<open>q_tail\<close> to the caller and advances \<open>q_tail\<close>.
\<close>

definition pop :: "fw \<Rightarrow> (EventRec \<times> fw) option" where
  "pop s =
     (if q_tail s = q_head s then None
      else Some (q s ! unat (q_tail s), s\<lparr> q_tail := (q_tail s + 1) AND 63 \<rparr>))"

text \<open>
  A history of the queue is a sequence of calls, each an atomic step. The outcome of a
  call is what an observer sees: a push either changed the queue or left it as it was
  (the function returns nothing), a pop either returned \<open>false\<close> or a record.
\<close>

datatype qop = Push char "64 word" | Pop

datatype outcome = Enqueued | Dropped | Dequeued EventRec | Empty

fun exec :: "qop \<Rightarrow> fw \<Rightarrow> outcome \<times> fw" where
  "exec (Push k ts) s =
     (let s' = isr_push k ts s in (if s' = s then Dropped else Enqueued, s'))"
| "exec Pop s = (case pop s of None \<Rightarrow> (Empty, s) | Some (r, s') \<Rightarrow> (Dequeued r, s'))"

fun run :: "qop list \<Rightarrow> fw \<Rightarrow> outcome list \<times> fw" where
  "run [] s = ([], s)"
| "run (c # cs) s = (let (o1, s1) = exec c s; (os, s2) = run cs s1 in (o1 # os, s2))"

text \<open>Events pending after a history: those enqueued and not yet dequeued.\<close>

fun is_Dequeued :: "outcome \<Rightarrow> bool" where
  "is_Dequeued (Dequeued r) = True"
| "is_Dequeued _ = False"

definition n_pending :: "outcome list \<Rightarrow> int" where
  "n_pending os = int (length (filter (\<lambda>x. x = Enqueued) os)) - int (length (filter is_Dequeued os))"

text \<open>The slots in use, oldest first, and the well-formedness of the two counters.\<close>

definition used :: "fw \<Rightarrow> nat" where
  "used s = (unat (q_head s) + 64 - unat (q_tail s)) mod 64"

definition contents :: "fw \<Rightarrow> EventRec list" where
  "contents s = map (\<lambda>i. q s ! ((unat (q_tail s) + i) mod 64)) [0..<used s]"

definition ring_inv :: "fw \<Rightarrow> bool" where
  "ring_inv s \<longleftrightarrow> length (q s) = 64 \<and> unat (q_head s) < 64 \<and> unat (q_tail s) < 64"

text \<open>
  The bounded FIFO queue the ring is compared with, written from the description: at most
  63 records, a push on a full queue drops the new record, a pop takes the oldest.
\<close>

fun fifo_exec :: "qop \<Rightarrow> EventRec list \<Rightarrow> outcome \<times> EventRec list" where
  "fifo_exec (Push k ts) xs =
     (if length xs < 63 then (Enqueued, xs @ [\<lparr>kind = k, dev_ts = ts\<rparr>]) else (Dropped, xs))"
| "fifo_exec Pop [] = (Empty, [])"
| "fifo_exec Pop (x # xs) = (Dequeued x, xs)"

fun fifo_run :: "qop list \<Rightarrow> EventRec list \<Rightarrow> outcome list \<times> EventRec list" where
  "fifo_run [] xs = ([], xs)"
| "fifo_run (c # cs) xs =
     (let (o1, xs1) = fifo_exec c xs; (os, xs2) = fifo_run cs xs1 in (o1 # os, xs2))"

section \<open>Text output of the sketches\<close>

text \<open>
  Decimal and upper-case hexadecimal rendering of an unsigned number, as \<open>%llu\<close>,
  \<open>%lu\<close> and \<open>Serial.print(x, HEX)\<close> produce it: no sign, no padding, a single
  \<open>0\<close> for zero.
\<close>

definition digit :: "nat \<Rightarrow> char" where
  "digit d = ''0123456789ABCDEF'' ! d"

fun dec :: "nat \<Rightarrow> string" where
  "dec n = (if n < 10 then [digit n] else dec (n div 10) @ [digit (n mod 10)])"

declare dec.simps [simp del]

fun hex :: "nat \<Rightarrow> string" where
  "hex n = (if n < 16 then [digit n] else hex (n div 16) @ [digit (n mod 16)])"

declare hex.simps [simp del]

text \<open>
  The conversion of a \<open>float\<close> to text is done by library code outside the repository:
  \<open>Print_float2\<close> stands for \<open>Serial.print(x, 2)\<close> and \<open>printf_f2\<close> for the
  \<open>%.2f\<close> directive of \<open>snprintf\<close>. The type \<open>'f\<close> stands for \<open>float\<close>.
\<close>

record 'f textlib =
  Print_float2 :: "'f \<Rightarrow> string"
  printf_f2 :: "'f \<Rightarrow> string"

text \<open>
  A stand-in for the library in examples: a quantity given in hundredths (a distance in
  whole centimetres), rendered with two decimals.
\<close>

definition cm2 :: "int \<Rightarrow> string" where
  "cm2 x = (if x < 0 then ''-'' else []) @ dec (nat \<bar>x\<bar> div 100) @ ''.'' @
           [digit (nat \<bar>x\<bar> mod 100 div 10), digit (nat \<bar>x\<bar> mod 10)]"

definition cm_lib :: "int textlib" where
  "cm_lib = \<lparr> Print_float2 = cm2, printf_f2 = cm2 \<rparr>"

text \<open>
  The format strings of the sketches use four directives: \<open>%s\<close>, \<open>%llu\<close>,
  \<open>%lu\<close> (\<open>unsigned long\<close> has 32 bits on the ESP32) and \<open>%.2f\<close>. \<open>format\<close>
  expands a format string with its arguments; a directive that does not fit its argument
  ends the output.
\<close>

datatype 'f arg = Str string | ULL "64 word" | UL "32 word" | Flt 'f

function format :: "'f textlib \<Rightarrow> string \<Rightarrow> 'f arg list \<Rightarrow> string" where
  "format L [] as = []"
| "format L (c # cs) as =
     (if c \<noteq> CHR ''%'' then c # format L cs as
      else case as of
        [] \<Rightarrow> []
      | Str x # as' \<Rightarrow> if take 1 cs = ''s'' then x @ format L (drop 1 cs) as' else []
      | ULL x # as' \<Rightarrow> if take 3 cs = ''llu'' then dec (unat x) @ format L (drop 3 cs) as' else []
      | UL x # as' \<Rightarrow> if take 2 cs = ''lu'' then dec (unat x) @ format L (drop 2 cs) as' else []
      | Flt x # as' \<Rightarrow> if take 3 cs = ''.2f'' then printf_f2 L x @ format L (drop 3 cs) as' else [])"
  by pat_completeness auto
termination
  by (relation "measure (\<lambda>(L, cs, as). length cs)") auto

text \<open>
  \<open>snprintf(buf, size, ...)\<close> stores at most \<open>size - 1\<close> characters and a terminating
  NUL, and returns the length of the whole text. The first component is the C string left
  in the buffer, the second the returned count.
\<close>

definition snprintf :: "nat \<Rightarrow> string \<Rightarrow> string \<times> nat" where
  "snprintf sz text = (take (sz - 1) text, length text)"

datatype error = NullDeref | PastTerminator

text \<open>
  \<open>write((const uint8_t*)buf, n)\<close> sends the first \<open>n\<close> bytes at \<open>buf\<close>. When
  \<open>n\<close> exceeds the length of the string in the buffer, the bytes sent are no longer the
  text: that case is the error \<open>PastTerminator\<close>. \<open>strlen(buf)\<close> is the length of
  the stored string.
\<close>

definition write_n :: "string \<Rightarrow> nat \<Rightarrow> error + string" where
  "write_n cs n = (if n \<le> length cs then Inr (take n cs) else Inl PastTerminator)"

definition strlen :: "string \<Rightarrow> nat" where
  "strlen cs = length cs"

section \<open>The main loop\<close>

text \<open>
  The interrupt handlers: after the library's own handling they enqueue \<open>'T'\<close> with
  the transmit timestamp, or \<open>'R'\<close> with the receive timestamp.
\<close>

definition on_tx_done :: "64 word \<Rightarrow> fw \<Rightarrow> fw" where
  "on_tx_done tx_ts s = isr_push (CHR ''T'') tx_ts s"

definition on_rx_done :: "64 word \<Rightarrow> fw \<Rightarrow> fw" where
  "on_rx_done rx_ts s = isr_push (CHR ''R'') rx_ts s"

text \<open>
  The record form of the wire protocol: \<open>role=<ROLE> evt=<KIND> <key>=<N>\<close> and a
  newline, with \<open>TAG\<close> or \<open>ANCHOR\<close> for the role.
\<close>

definition role_name :: "role \<Rightarrow> string" where
  "role_name r = (case r of TAG \<Rightarrow> ''TAG'' | ANCHOR \<Rightarrow> ''ANCHOR'')"

definition wire_record :: "role \<Rightarrow> string \<Rightarrow> string \<Rightarrow> string \<Rightarrow> string" where
  "wire_record r evt key val =
     ''role='' @ role_name r @ '' evt='' @ evt @ '' '' @ key @ ''='' @ val @ ''\<newline>''"

text \<open>The format strings differ between the two sketches only in the role.\<close>

definition evt_fmt :: "role \<Rightarrow> string" where
  "evt_fmt r = (case r of TAG \<Rightarrow> ''role=TAG evt=%s dev_ts=%llu\<newline>''
                        | ANCHOR \<Rightarrow> ''role=ANCHOR evt=%s dev_ts=%llu\<newline>'')"

definition hb_fmt :: "role \<Rightarrow> string" where
  "hb_fmt r = (case r of TAG \<Rightarrow> ''role=TAG evt=HEARTBEAT host_ts=%lu\<newline>''
                       | ANCHOR \<Rightarrow> ''role=ANCHOR evt=HEARTBEAT host_ts=%lu\<newline>'')"

definition range_fmt :: "role \<Rightarrow> string" where
  "range_fmt r = (case r of TAG \<Rightarrow> ''role=TAG evt=RANGE host_ts=%lu\<newline>''
                          | ANCHOR \<Rightarrow> ''role=ANCHOR evt=RANGE host_ts=%lu\<newline>'')"

text \<open>
  The body of \<open>while (pop(r))\<close>: format the record into \<open>buf[128]\<close> and send the
  \<open>n\<close> bytes that \<open>snprintf\<close> reported as one datagram to the event port.
\<close>

definition send_event :: "'f textlib \<Rightarrow> role \<Rightarrow> EventRec \<Rightarrow> fw \<Rightarrow> error + fw" where
  "send_event L r e s =
     (let (buf, n) = snprintf 128 (format L (evt_fmt r)
                       [Str (if kind e = CHR ''T'' then ''TX'' else ''RX''), ULL (dev_ts e)])
      in case write_n buf n of
           Inl err \<Rightarrow> Inl err
         | Inr bytes \<Rightarrow> Inr (s\<lparr> evt_out := evt_out s @ [bytes] \<rparr>))"

partial_function (option) drain :: "'f textlib \<Rightarrow> role \<Rightarrow> fw \<Rightarrow> (error + fw) option" where
  "drain L r s =
     (case pop s of
        None \<Rightarrow> Some (Inr s)
      | Some (e, s1) \<Rightarrow>
          (case send_event L r e s1 of
             Inl err \<Rightarrow> Some (Inl err)
           | Inr s2 \<Rightarrow> drain L r s2))"

text \<open>
  The heartbeat: \<open>now\<close> is the value of \<open>millis()\<close>, an \<open>unsigned long\<close>; the
  subtraction wraps and the comparison with \<open>HEARTBEAT_MS\<close> is unsigned. The line is
  formatted into \<open>hb[64]\<close> and \<open>strlen(hb)\<close> bytes are sent.
\<close>

definition HEARTBEAT_MS :: "32 word" where
  "HEARTBEAT_MS = 2000"

definition heartbeat :: "'f textlib \<Rightarrow> role \<Rightarrow> 32 word \<Rightarrow> fw \<Rightarrow> fw" where
  "heartbeat L r now s =
     (if now - last_hb s \<ge> HEARTBEAT_MS then
        (let hb = fst (snprintf 64 (format L (hb_fmt r) [UL (now div 1000)]))
         in s\<lparr> last_hb := now, evt_out := evt_out s @ [take (strlen hb) hb] \<rparr>)
      else s)"

text \<open>
  One pass of \<open>loop()\<close> after \<open>DW1000Ranging.loop()\<close>, whose callbacks are the
  separate entry points \<open>newRange\<close>, \<open>on_tx_done\<close> and \<open>on_rx_done\<close>.
\<close>

definition loop :: "'f textlib \<Rightarrow> role \<Rightarrow> 32 word \<Rightarrow> fw \<Rightarrow> (error + fw) option" where
  "loop L r now s =
     (case drain L r s of
        None \<Rightarrow> None
      | Some (Inl err) \<Rightarrow> Some (Inl err)
      | Some (Inr s1) \<Rightarrow> Some (Inr (heartbeat L r now s1)))"

section \<open>The range callback\<close>

text \<open>
  What the sketches read from the \<open>DW1000Device\<close> that
  \<open>DW1000Ranging.getDistantDevice()\<close> returns; the pointer may be null (\<open>None\<close>).
  \<open>via p f\<close> is the call \<open>p->f()\<close>: on a null pointer it is the error
  \<open>NullDeref\<close>.
\<close>

record 'f DW1000Device =
  getShortAddress :: "16 word"
  getRange :: 'f
  getRXPower :: 'f

definition via :: "'a option \<Rightarrow> ('a \<Rightarrow> 'b) \<Rightarrow> error + 'b" where
  "via p f = (case p of None \<Rightarrow> Inl NullDeref | Some x \<Rightarrow> Inr (f x))"

definition and_then :: "error + 'a \<Rightarrow> ('a \<Rightarrow> error + 'b) \<Rightarrow> error + 'b" where
  "and_then m f = (case m of Inl err \<Rightarrow> Inl err | Inr x \<Rightarrow> f x)"

text \<open>\<open>ENABLE_UDP_RANGE\<close> is 1 in the tag sketch and 0 in the anchor sketch.\<close>

definition ENABLE_UDP_RANGE :: "role \<Rightarrow> bool" where
  "ENABLE_UDP_RANGE r = (case r of TAG \<Rightarrow> True | ANCHOR \<Rightarrow> False)"

text \<open>The line printed on the serial port; \<open>println\<close> ends it with CR LF.\<close>

definition serial_line :: "'f textlib \<Rightarrow> 16 word \<Rightarrow> 'f \<Rightarrow> 'f \<Rightarrow> string" where
  "serial_line L addr m rssi =
     ''from: '' @ hex (unat addr) @ [CHR 0x09] @ '' Range: '' @ Print_float2 L m @
     '' m'' @ [CHR 0x09] @ '' RX power: '' @ Print_float2 L rssi @ '' dBm'' @ [CHR 0x0D, CHR 0x0A]"

text \<open>
  \<open>newRange\<close> of the tag and anchor sketches that report events. \<open>udp_range\<close> is the
  value of \<open>ENABLE_UDP_RANGE\<close> the sketch is compiled with, \<open>now\<close> the value of
  \<open>millis()\<close>.
\<close>

definition newRange ::
  "'f textlib \<Rightarrow> role \<Rightarrow> bool \<Rightarrow> 32 word \<Rightarrow> 'f DW1000Device option \<Rightarrow> fw \<Rightarrow> error + fw" where
  "newRange L r udp_range now dev s =
     (if dev = None then Inr s
      else
        and_then (via dev getRange) (\<lambda>m.
        and_then (via dev getRXPower) (\<lambda>rssi.
        and_then (via dev getShortAddress) (\<lambda>addr.
          let s1 = s\<lparr> serial_out := serial_out s @ serial_line L addr m rssi \<rparr>;
              sec = now div 1000;
              e = fst (snprintf 96 (format L (range_fmt r) [UL sec]));
              s2 = s1\<lparr> evt_out := evt_out s1 @ [take (strlen e) e] \<rparr>
          in if udp_range then
               (let msg = fst (snprintf 64 (format L ''Range: %.2f m\<newline>'' [Flt m]))
                in Inr (s2\<lparr> udp_out := udp_out s2 @ [take (strlen msg) msg] \<rparr>))
             else Inr s2))))"

text \<open>
  \<open>newRange\<close> of the tag sketch that only reports distances: the message is sent with
  the byte count returned by \<open>snprintf\<close>.
\<close>

definition newRange_plot :: "'f textlib \<Rightarrow> 'f DW1000Device option \<Rightarrow> fw \<Rightarrow> error + fw" where
  "newRange_plot L dev s =
     (if dev = None then Inr s
      else
        and_then (via dev getRange) (\<lambda>range_m.
        and_then (via dev getRXPower) (\<lambda>rx_dbm.
        and_then (via dev getShortAddress) (\<lambda>addr.
          let s1 = s\<lparr> serial_out := serial_out s @ serial_line L addr range_m rx_dbm \<rparr>;
              (msg, n) = snprintf 64 (format L ''Range: %.2f m\<newline>'' [Flt range_m])
          in case write_n msg n of
               Inl err \<Rightarrow> Inl err
             | Inr bytes \<Rightarrow> Inr (s1\<lparr> udp_out := udp_out s1 @ [bytes] \<rparr>)))))"

section \<open>The Pairer of the correlation engine\<close>

text \<open>
  Modelled from the spec: the host-side correlation engine is not among the sources; its
  data model follows section 3 of the specification, with timestamps as exact numbers of
  seconds. An event is of one of four kinds.
\<close>

datatype event_kind = TX | RX | RANGE | HEARTBEAT

text \<open>
  Modelled from the spec: the \<open>Event\<close> record of the absent engine, with its role,
  kind, optional device timestamp, host timestamp and ingestion sequence number.
\<close>

record Event =
  ev_role :: role
  ev_kind :: event_kind
  device_timestamp :: "nat option"
  host_timestamp :: rat
  ingestion_sequence :: nat

text \<open>
  Modelled from the spec: a \<open>PendingTX\<close> is created on TX arrival with
  \<open>expiry = host_timestamp + horizon\<close>; it keeps the TX event, whose role and
  host timestamp are the entry's.
\<close>

record PendingTX =
  tx :: Event
  expiry :: rat

text \<open>
  Modelled from the spec: a \<open>PairedLink\<close> holds the TX event, the RX event and
  \<open>latency = rx.host_timestamp - tx.host_timestamp\<close>.
\<close>

record PairedLink =
  tx_event :: Event
  rx_event :: Event
  latency :: rat

text \<open>
  Modelled from the spec: the state of the Pairer, which is absent from the sources: the
  two horizons, the pending set of each role in enqueue order, the links emitted so far
  (append-only), the counters of expired TX and unmatched RX, and the range-fallback
  markers.
\<close>

record Pairer =
  horizon :: rat
  fallback_horizon :: rat
  pending :: "role \<Rightarrow> PendingTX list"
  links :: "PairedLink list"
  unpaired_tx :: nat
  unmatched_rx :: nat
  fallback_markers :: "Event list"

text \<open>Modelled from the spec: the Pairer before any event, which the sources do not contain.\<close>

definition pairer_init :: "rat \<Rightarrow> rat \<Rightarrow> Pairer" where
  "pairer_init h fh = \<lparr> horizon = h, fallback_horizon = fh, pending = (\<lambda>r. []), links = [],
     unpaired_tx = 0, unmatched_rx = 0, fallback_markers = [] \<rparr>"

text \<open>Modelled from the spec: the opposite role, for the Pairer that is not in the sources.\<close>

definition opposite :: "role \<Rightarrow> role" where
  "opposite r = (case r of TAG \<Rightarrow> ANCHOR | ANCHOR \<Rightarrow> TAG)"

text \<open>
  Modelled from the spec: the latency of an RX event against a pending TX of the absent
  Pairer, \<open>rx.host_timestamp - tx.host_timestamp\<close>.
\<close>

definition lat :: "Event \<Rightarrow> PendingTX \<Rightarrow> rat" where
  "lat rx p = host_timestamp rx - host_timestamp (tx p)"

text \<open>
  Modelled from the spec: the candidate test of the absent Pairer,
  \<open>0 \<le> rx.host_timestamp - tx.host_timestamp \<le> horizon\<close>.
\<close>

definition qualifies :: "rat \<Rightarrow> Event \<Rightarrow> PendingTX \<Rightarrow> bool" where
  "qualifies h rx p \<longleftrightarrow> 0 \<le> lat rx p \<and> lat rx p \<le> h"

text \<open>
  Modelled from the spec: the selection rule of the absent Pairer. Among the positions of
  the candidates, in enqueue order, the winner is the first one whose latency is smallest.
\<close>

definition winner :: "rat \<Rightarrow> Event \<Rightarrow> PendingTX list \<Rightarrow> nat option" where
  "winner h rx P =
     (let cands = filter (\<lambda>i. qualifies h rx (P ! i)) [0..<length P]
      in find (\<lambda>i. list_all (\<lambda>j. lat rx (P ! i) \<le> lat rx (P ! j)) cands) cands)"

text \<open>
  Modelled from the spec: an entry of the absent Pairer has expired when its expiry has
  passed.
\<close>

definition expired :: "rat \<Rightarrow> PendingTX \<Rightarrow> bool" where
  "expired now p \<longleftrightarrow> expiry p < now"

text \<open>
  Modelled from the spec: TX arrival in the absent Pairer. The entry is inserted into the
  pending set of the TX's role, then the entries whose expiry has passed are removed, each
  counted as an unpaired TX.
\<close>

definition on_tx :: "Event \<Rightarrow> Pairer \<Rightarrow> Pairer" where
  "on_tx e s =
     (let now = host_timestamp e;
          ins = (pending s)(ev_role e := pending s (ev_role e) @ [\<lparr>tx = e, expiry = now + horizon s\<rparr>]);
          gone = length (filter (expired now) (ins TAG)) + length (filter (expired now) (ins ANCHOR))
      in s\<lparr> pending := (\<lambda>r. filter (\<lambda>p. \<not> expired now p) (ins r)),
            unpaired_tx := unpaired_tx s + gone \<rparr>)"

text \<open>
  Modelled from the spec: RX arrival in the absent Pairer. The opposite role's pending set
  is scanned; the winner is removed and a link is appended, or the RX is counted as
  unmatched.
\<close>

definition on_rx :: "Event \<Rightarrow> Pairer \<Rightarrow> Pairer" where
  "on_rx e s =
     (let opp = opposite (ev_role e); P = pending s opp
      in case winner (horizon s) e P of
           None \<Rightarrow> s\<lparr> unmatched_rx := unmatched_rx s + 1 \<rparr>
         | Some i \<Rightarrow>
             s\<lparr> pending := (pending s)(opp := take i P @ drop (Suc i) P),
                links := links s @ [\<lparr>tx_event = tx (P ! i), rx_event = e, latency = lat e (P ! i)\<rparr>] \<rparr>)"

text \<open>
  Modelled from the spec: RANGE arrival in the absent Pairer. When no link has closed
  within the fallback horizon ending at the RANGE's host timestamp, a range-fallback
  marker is recorded.
\<close>

definition on_range :: "Event \<Rightarrow> Pairer \<Rightarrow> Pairer" where
  "on_range e s =
     (if list_ex (\<lambda>l. host_timestamp e - fallback_horizon s \<le> host_timestamp (rx_event l) \<and>
                       host_timestamp (rx_event l) \<le> host_timestamp e) (links s)
      then s else s\<lparr> fallback_markers := fallback_markers s @ [e] \<rparr>)"

text \<open>
  Modelled from the spec: the dispatch of the absent Pairer on the kind of the event;
  HEARTBEAT events never enter pairing.
\<close>

definition pairer_step :: "Event \<Rightarrow> Pairer \<Rightarrow> Pairer" where
  "pairer_step e s =
     (case ev_kind e of TX \<Rightarrow> on_tx e s | RX \<Rightarrow> on_rx e s | RANGE \<Rightarrow> on_range e s | HEARTBEAT \<Rightarrow> s)"

text \<open>Modelled from the spec: the absent Pairer run over an event stream, in order.\<close>

definition pairer_run :: "Event list \<Rightarrow> Pairer \<Rightarrow> Pairer" where
  "pairer_run es s = foldl (\<lambda>s e. pairer_step e s) s es"

text \<open>
  Modelled from the spec: the enqueue order of a pending set of the absent Pairer, told by
  positions in the event stream. \<open>arrivals es h r ps xs\<close> says that the entries
  \<open>xs\<close> are those made at their arrival from the TX events of role \<open>r\<close> at the
  stream positions \<open>ps\<close>, and that these positions increase along the list.
\<close>

definition arrivals :: "Event list \<Rightarrow> rat \<Rightarrow> role \<Rightarrow> nat list \<Rightarrow> PendingTX list \<Rightarrow> bool" where
  "arrivals es h r ps xs \<longleftrightarrow>
     sorted_wrt (<) ps \<and>
     list_all (\<lambda>p. p < length es \<and> ev_kind (es ! p) = TX \<and> ev_role (es ! p) = r) ps \<and>
     xs = map (\<lambda>p. \<lparr>tx = es ! p, expiry = host_timestamp (es ! p) + h\<rparr>) ps"

section \<open>AES-GCM packets of the encrypting tag\<close>

text \<open>
  The encrypting tag sketch calls mbedTLS, which is outside the repository. Its GCM
  functions are modelled after the mode they implement (NIST SP 800-38D): counter-mode
  encryption with the block cipher and a GHASH tag. The block cipher itself, AES under a
  key, is a parameter \<open>E\<close> of the model: \<open>E key block\<close> is the encryption of one
  128-bit block. Byte strings are lists of bytes; a \<open>size_t\<close> length that goes with a
  pointer is the length of the list.
\<close>

type_synonym bytes = "8 word list"
type_synonym block = "128 word"
type_synonym cipher = "bytes \<Rightarrow> block \<Rightarrow> block"

text \<open>A block from up to 16 bytes, big-endian and padded with zero bytes, and back.\<close>

definition block_of :: "bytes \<Rightarrow> block" where
  "block_of bs = foldl (\<lambda>acc b. push_bit 8 acc OR ucast b) 0 (take 16 (bs @ replicate 16 0))"

definition bytes_of :: "block \<Rightarrow> bytes" where
  "bytes_of w = map (\<lambda>i. ucast (drop_bit (8 * (15 - i)) w)) [0..<16]"

definition xor_bytes :: "bytes \<Rightarrow> bytes \<Rightarrow> bytes" where
  "xor_bytes xs ys = map (\<lambda>(x, y). x XOR y) (zip xs ys)"

text \<open>
  Multiplication in GF(2^128) as GHASH defines it: the leftmost bit of a block is the
  coefficient of degree 0, and the reduction constant is \<open>11100001\<close> followed by 120
  zero bits.
\<close>

definition gf_step :: "block \<Rightarrow> nat \<Rightarrow> block \<times> block \<Rightarrow> block \<times> block" where
  "gf_step x i zv =
     (let (z, v) = zv;
          z' = (if bit x (127 - i) then z XOR v else z);
          v' = (if bit v 0 then drop_bit 1 v XOR push_bit 120 0xE1 else drop_bit 1 v)
      in (z', v'))"

definition gf_mult :: "block \<Rightarrow> block \<Rightarrow> block" where
  "gf_mult x y = fst (fold (gf_step x) [0..<128] (0, y))"

definition ghash :: "block \<Rightarrow> block list \<Rightarrow> block" where
  "ghash h xs = foldl (\<lambda>y x. gf_mult (y XOR x) h) 0 xs"

function pad_blocks :: "bytes \<Rightarrow> block list" where
  "pad_blocks xs = (if xs = [] then [] else block_of (take 16 xs) # pad_blocks (drop 16 xs))"
  by pat_completeness auto
termination
  by (relation "measure length") auto

declare pad_blocks.simps [simp del]

definition len_block :: "nat \<Rightarrow> nat \<Rightarrow> block" where
  "len_block alen clen = push_bit 64 (of_nat (8 * alen)) OR of_nat (8 * clen)"

text \<open>The counter: the low 32 bits are incremented modulo \<open>2^32\<close>.\<close>

definition inc32 :: "block \<Rightarrow> block" where
  "inc32 cb = push_bit 32 (drop_bit 32 cb) OR ucast ((ucast cb :: 32 word) + 1)"

function gctr :: "cipher \<Rightarrow> bytes \<Rightarrow> block \<Rightarrow> bytes \<Rightarrow> bytes" where
  "gctr E key cb xs =
     (if xs = [] then []
      else xor_bytes (take 16 xs) (bytes_of (E key cb)) @ gctr E key (inc32 cb) (drop 16 xs))"
  by pat_completeness auto
termination
  by (relation "measure (\<lambda>(E, key, cb, xs). length xs)") auto

declare gctr.simps [simp del]

text \<open>
  The context after \<open>mbedtls_gcm_setkey\<close>: the key bytes read through the key pointer
  and the hash subkey \<open>H = E(K, 0)\<close>.
\<close>

record gcm_context =
  ctx_key :: bytes
  ctx_H :: block

definition MBEDTLS_ERR_GCM_AUTH_FAILED :: int where
  "MBEDTLS_ERR_GCM_AUTH_FAILED = - 0x0012"

definition MBEDTLS_ERR_GCM_BAD_INPUT :: int where
  "MBEDTLS_ERR_GCM_BAD_INPUT = - 0x0014"

text \<open>
  A function that returns an \<open>int\<close> status and writes its results through pointers
  is a sum: \<open>Inl ret\<close> for a status other than 0, \<open>Inr\<close> of the results for 0.
\<close>

definition mbedtls_gcm_setkey :: "cipher \<Rightarrow> bytes \<Rightarrow> nat \<Rightarrow> int + gcm_context" where
  "mbedtls_gcm_setkey E key keybits =
     (if keybits \<noteq> 128 \<and> keybits \<noteq> 192 \<and> keybits \<noteq> 256 then Inl MBEDTLS_ERR_GCM_BAD_INPUT
      else Inr \<lparr> ctx_key = take (keybits div 8) key,
                 ctx_H = E (take (keybits div 8) key) 0 \<rparr>)"

definition gcm_j0 :: "gcm_context \<Rightarrow> bytes \<Rightarrow> block" where
  "gcm_j0 ctx iv =
     (if length iv = 12 then block_of (iv @ [0, 0, 0, 1])
      else ghash (ctx_H ctx) (pad_blocks iv @ [len_block 0 (length iv)]))"

definition gcm_tag :: "cipher \<Rightarrow> gcm_context \<Rightarrow> bytes \<Rightarrow> bytes \<Rightarrow> bytes \<Rightarrow> nat \<Rightarrow> bytes" where
  "gcm_tag E ctx iv aad c tag_len =
     (let s = ghash (ctx_H ctx) (pad_blocks aad @ pad_blocks c @ [len_block (length aad) (length c)])
      in take tag_len (bytes_of (E (ctx_key ctx) (gcm_j0 ctx iv) XOR s)))"

text \<open>
  \<open>mbedtls_gcm_crypt_and_tag\<close> in mode \<open>MBEDTLS_GCM_ENCRYPT\<close>: the checks on the IV
  length, the input length and the tag length, then the ciphertext and the tag.
\<close>

definition gcm_bad_input :: "nat \<Rightarrow> nat \<Rightarrow> nat \<Rightarrow> bool" where
  "gcm_bad_input iv_len len tag_len \<longleftrightarrow> iv_len = 0 \<or> len > 0xFFFFFFFE0 \<or> tag_len > 16 \<or> tag_len < 4"

definition mbedtls_gcm_crypt_and_tag ::
  "cipher \<Rightarrow> gcm_context \<Rightarrow> bytes \<Rightarrow> bytes \<Rightarrow> bytes \<Rightarrow> nat \<Rightarrow> int + (bytes \<times> bytes)" where
  "mbedtls_gcm_crypt_and_tag E ctx iv aad input tag_len =
     (if gcm_bad_input (length iv) (length input) tag_len then Inl MBEDTLS_ERR_GCM_BAD_INPUT
      else
        (let c = gctr E (ctx_key ctx) (inc32 (gcm_j0 ctx iv)) input
         in Inr (c, gcm_tag E ctx iv aad c tag_len)))"

text \<open>
  \<open>mbedtls_gcm_auth_decrypt\<close>: the tag is recomputed over the ciphertext and compared
  with the given one; on a mismatch the status is \<open>MBEDTLS_ERR_GCM_AUTH_FAILED\<close>.
\<close>

definition mbedtls_gcm_auth_decrypt ::
  "cipher \<Rightarrow> gcm_context \<Rightarrow> bytes \<Rightarrow> bytes \<Rightarrow> bytes \<Rightarrow> bytes \<Rightarrow> int + bytes" where
  "mbedtls_gcm_auth_decrypt E ctx iv aad tag input =
     (if gcm_bad_input (length iv) (length input) (length tag) then Inl MBEDTLS_ERR_GCM_BAD_INPUT
      else if gcm_tag E ctx iv aad input (length tag) \<noteq> tag then Inl MBEDTLS_ERR_GCM_AUTH_FAILED
      else Inr (gctr E (ctx_key ctx) (inc32 (gcm_j0 ctx iv)) input))"

text \<open>The constants of the sketch and its two functions.\<close>

definition AES_KEY_LEN :: nat where "AES_KEY_LEN = 16"
definition AES_IV_LEN :: nat where "AES_IV_LEN = 12"
definition AES_TAG_LEN :: nat where "AES_TAG_LEN = 16"
definition MAX_PLAINTEXT_LEN :: nat where "MAX_PLAINTEXT_LEN = 128"

text \<open>
  \<open>aesGcmEncrypt\<close>: set the key with \<open>AES_KEY_LEN * 8\<close> bits; on a status other
  than 0 return it; otherwise encrypt with \<open>AES_IV_LEN\<close> bytes of IV, no additional
  data and a tag of \<open>AES_TAG_LEN\<close> bytes, and return that status. The result is the
  ciphertext and the tag.
\<close>

definition aesGcmEncrypt :: "cipher \<Rightarrow> bytes \<Rightarrow> bytes \<Rightarrow> bytes \<Rightarrow> int + (bytes \<times> bytes)" where
  "aesGcmEncrypt E key iv plaintext =
     (case mbedtls_gcm_setkey E key (AES_KEY_LEN * 8) of
        Inl ret \<Rightarrow> Inl ret
      | Inr ctx \<Rightarrow> mbedtls_gcm_crypt_and_tag E ctx (take AES_IV_LEN iv) [] plaintext AES_TAG_LEN)"

text \<open>
  \<open>aesGcmDecrypt\<close>: the same key setup, then authenticated decryption with
  \<open>AES_TAG_LEN\<close> bytes of the given tag.
\<close>

definition aesGcmDecrypt :: "cipher \<Rightarrow> bytes \<Rightarrow> bytes \<Rightarrow> bytes \<Rightarrow> bytes \<Rightarrow> int + bytes" where
  "aesGcmDecrypt E key iv tag ciphertext =
     (case mbedtls_gcm_setkey E key (AES_KEY_LEN * 8) of
        Inl ret \<Rightarrow> Inl ret
      | Inr ctx \<Rightarrow>
          mbedtls_gcm_auth_decrypt E ctx (take AES_IV_LEN iv) [] (take AES_TAG_LEN tag) ciphertext)"

section \<open>Queue lemmas\<close>

subsection \<open>Counter arithmetic\<close>

lemma unat_next: "unat ((w + 1) AND 63 :: 8 word) = (unat w + 1) mod 64"
proof -
  have "(w + 1) AND 63 = take_bit 6 (w + 1)" by (simp add: take_bit_eq_mask mask_eq_exp_minus_1)
  also have "\<dots> = (w + 1) mod 64" by (simp add: take_bit_eq_mod)
  finally have "unat ((w + 1) AND 63) = unat (w + 1) mod unat (64 :: 8 word)"
    by (simp only: unat_mod_distrib) 
  also have "\<dots> = ((unat w + 1) mod 256) mod 64"
    by (simp add: unat_word_ariths)
  also have "\<dots> = (unat w + 1) mod 64"
    by (simp add: mod_mod_cancel)
  finally show ?thesis .
qed

lemma word_eq_unat: "(a :: 8 word) = b \<longleftrightarrow> unat a = unat b"
  by (simp add: word_unat_eq_iff)

lemma succ_mod64: "h < 64 \<Longrightarrow> (h + 1) mod 64 = (if h = 63 then 0 else h + 1)" for h :: nat
  by (cases "h = 63") simp_all

lemma diff_mod64: 
  fixes h t :: nat
  assumes "h < 64" "t < 64"
  shows "(h + 64 - t) mod 64 = (if t \<le> h then h - t else h + 64 - t)"
proof (cases "t \<le> h")
  case True
  then have "h + 64 - t = (h - t) + 64" by simp
  then have "(h + 64 - t) mod 64 = ((h - t) + 64) mod 64" by (simp only:)
  also have "\<dots> = (h - t) mod 64" by simp
  also have "\<dots> = h - t" using assms by simp
  finally show ?thesis using True by simp
next
  case False
  with assms have "h + 64 - t < 64" by simp
  then show ?thesis using False by simp
qed

lemma ring_full_iff: "ring_inv s \<Longrightarrow> ((q_head s + 1) AND 63 = q_tail s) \<longleftrightarrow> used s = 63"
  unfolding ring_inv_def used_def word_eq_unat unat_next
  by (simp add: succ_mod64 diff_mod64 del: One_nat_def add_Suc_right) linarith

lemma ring_empty_iff: "ring_inv s \<Longrightarrow> (q_tail s = q_head s) \<longleftrightarrow> used s = 0"
  unfolding ring_inv_def used_def word_eq_unat 
  by (auto simp: diff_mod64)

lemma add_mod64:
  fixes a b :: nat
  assumes "a < 64" "b < 64"
  shows "(a + b) mod 64 = (if a + b < 64 then a + b else a + b - 64)"
proof (cases "a + b < 64")
  case True then show ?thesis by simp
next
  case False
  then have "a + b = (a + b - 64) + 64" by simp
  then have "(a + b) mod 64 = ((a + b - 64) + 64) mod 64" by (simp only:)
  also have "\<dots> = (a + b - 64) mod 64" by simp
  also have "\<dots> = a + b - 64" using assms by simp
  finally show ?thesis using False by simp
qed

lemma used_lt: "ring_inv s \<Longrightarrow> used s < 64"
  by (simp add: used_def)

lemma wrap_last: 
  fixes h t :: nat
  assumes "h < 64" "t < 64"
  shows "(t + (h + 64 - t) mod 64) mod 64 = h"
proof -
  have "(h + 64 - t) mod 64 < 64" by simp
  then show ?thesis using assms 
    by (simp add: add_mod64 del: One_nat_def add_Suc_right) (simp add: diff_mod64 split: if_splits)
qed

lemma wrap_before:
  fixes h t i :: nat
  assumes "h < 64" "t < 64" "i < (h + 64 - t) mod 64"
  shows "(t + i) mod 64 \<noteq> h"
proof -
  have i64: "i < 64" using assms(3) by (meson less_trans mod_less_divisor zero_less_numeral)
  have e1: "(h + 64 - t) mod 64 = (if t \<le> h then h - t else h + 64 - t)"
    using assms by (rule_tac diff_mod64)
  have e2: "(t + i) mod 64 = (if t + i < 64 then t + i else t + i - 64)"
    using assms i64 by (rule_tac add_mod64)
  show ?thesis using assms i64 unfolding e1 e2 by (auto split: if_splits)
qed

lemma used_push:
  fixes h t :: nat
  assumes "h < 64" "t < 64" "(h + 64 - t) mod 64 \<noteq> 63"
  shows "((h + 1) mod 64 + 64 - t) mod 64 = (h + 64 - t) mod 64 + 1"
proof -
  have e0: "(h + 1) mod 64 = (if h = 63 then 0 else h + 1)"
    using assms by (rule_tac succ_mod64)
  have "(h + 1) mod 64 < 64" by simp
  then have e1: "((h + 1) mod 64 + 64 - t) mod 64 = 
     (if t \<le> (h + 1) mod 64 then (h + 1) mod 64 - t else (h + 1) mod 64 + 64 - t)"
    using assms by (rule_tac diff_mod64)
  have e2: "(h + 64 - t) mod 64 = (if t \<le> h then h - t else h + 64 - t)"
    using assms by (rule_tac diff_mod64)
  show ?thesis using assms unfolding e1 e2 unfolding e0 by (auto split: if_splits)
qed

lemma used_pop:
  fixes h t :: nat
  assumes "h < 64" "t < 64" "(h + 64 - t) mod 64 \<noteq> 0"
  shows "(h + 64 - (t + 1) mod 64) mod 64 = (h + 64 - t) mod 64 - 1"
proof -
  have e0: "(t + 1) mod 64 = (if t = 63 then 0 else t + 1)"
    using assms by (rule_tac succ_mod64)
  have "(t + 1) mod 64 < 64" by simp
  then have e1: "(h + 64 - (t + 1) mod 64) mod 64 = 
     (if (t + 1) mod 64 \<le> h then h - (t + 1) mod 64 else h + 64 - (t + 1) mod 64)"
    using assms by (rule_tac diff_mod64)
  have e2: "(h + 64 - t) mod 64 = (if t \<le> h then h - t else h + 64 - t)"
    using assms by (rule_tac diff_mod64)
  show ?thesis using assms unfolding e1 e2 unfolding e0 by (auto split: if_splits)
qed

lemma shift_idx: "((t + 1) mod 64 + i) mod 64 = (t + Suc i) mod (64::nat)"
  by (simp add: mod_simps)

subsection \<open>Push and pop on the slots in use\<close>

lemma succ_mod64S: "h < 64 \<Longrightarrow> Suc h mod 64 = (if h = 63 then 0 else Suc h)"
  using succ_mod64 [of h] by simp

lemma shift_idxS: "(Suc t mod 64 + j) mod 64 = Suc (t + j) mod 64"
  using shift_idx [of t j] by simp

lemma length_contents: "length (contents s) = used s"
  by (simp add: contents_def)

lemma push_full: "ring_inv s \<Longrightarrow> used s = 63 \<Longrightarrow> isr_push k ts s = s"
  by (simp add: isr_push_def ring_full_iff)

lemma push_inv: "ring_inv s \<Longrightarrow> ring_inv (isr_push k ts s)"
  by (simp add: isr_push_def ring_inv_def Let_def unat_next)

lemma push_ok:
  assumes inv: "ring_inv s" and nf: "used s \<noteq> 63"
  shows "contents (isr_push k ts s) = contents s @ [\<lparr>kind = k, dev_ts = ts\<rparr>]"
    and "isr_push k ts s \<noteq> s"
proof -
  let ?h = "unat (q_head s)" and ?t = "unat (q_tail s)"
  let ?r = "\<lparr>kind = k, dev_ts = ts\<rparr>"
  let ?s' = "s\<lparr> q := (q s)[?h := ?r], q_head := (q_head s + 1) AND 63 \<rparr>"
  from inv have h: "?h < 64" and t: "?t < 64" and len: "length (q s) = 64"
    by (simp_all add: ring_inv_def)
  from inv nf have ne: "(q_head s + 1) AND 63 \<noteq> q_tail s" by (simp add: ring_full_iff)
  then have eq: "isr_push k ts s = ?s'" by (simp add: isr_push_def Let_def)
  have u': "used ?s' = used s + 1"
    using used_push [OF h t] nf by (simp add: used_def unat_next)
  have old: "(q s)[?h := ?r] ! ((?t + i) mod 64) = q s ! ((?t + i) mod 64)" if "i < used s" for i
    using wrap_before [OF h t, of i] that by (simp add: used_def)
  have new: "(q s)[?h := ?r] ! ((?t + used s) mod 64) = ?r"
    using wrap_last [OF h t] h len by (simp add: used_def)
  have "contents ?s' = map (\<lambda>i. (q s)[?h := ?r] ! ((?t + i) mod 64)) [0..<used s + 1]"
    by (simp add: contents_def u')
  also have "\<dots> = map (\<lambda>i. (q s)[?h := ?r] ! ((?t + i) mod 64)) [0..<used s] @ [?r]"
    using new by simp
  also have "map (\<lambda>i. (q s)[?h := ?r] ! ((?t + i) mod 64)) [0..<used s] = contents s"
    unfolding contents_def by (rule map_cong) (simp_all add: old)
  finally show "contents (isr_push k ts s) = contents s @ [?r]" by (simp add: eq)
  have "q_head ?s' \<noteq> q_head s"
    using h by (simp add: word_eq_unat unat_next succ_mod64S)
  then show "isr_push k ts s \<noteq> s" unfolding eq by (metis)
qed

lemma pop_empty: "ring_inv s \<Longrightarrow> used s = 0 \<Longrightarrow> pop s = None"
  by (simp add: pop_def ring_empty_iff)

lemma pop_ok:
  assumes inv: "ring_inv s" and ne: "used s \<noteq> 0"
  shows "\<exists>s'. pop s = Some (hd (contents s), s') \<and> ring_inv s' \<and> contents s' = tl (contents s)
            \<and> used s' = used s - 1"
proof -
  let ?h = "unat (q_head s)" and ?t = "unat (q_tail s)"
  let ?s' = "s\<lparr> q_tail := (q_tail s + 1) AND 63 \<rparr>"
  from inv have h: "?h < 64" and t: "?t < 64" and len: "length (q s) = 64"
    by (simp_all add: ring_inv_def)
  from inv ne have "q_tail s \<noteq> q_head s" by (simp add: ring_empty_iff)
  then have p: "pop s = Some (q s ! ?t, ?s')" by (simp add: pop_def)
  have u': "used ?s' = used s - 1"
    using used_pop [OF h t] ne by (simp add: used_def unat_next)
  have inv': "ring_inv ?s'" using inv by (simp add: ring_inv_def unat_next)
  have c: "contents s = q s ! ?t # contents ?s'"
  proof (rule nth_equalityI)
    show "length (contents s) = length (q s ! ?t # contents ?s')"
      using ne by (simp add: length_contents u')
  next
    fix i assume "i < length (contents s)"
    then have i: "i < used s" by (simp add: length_contents)
    show "contents s ! i = (q s ! ?t # contents ?s') ! i"
    proof (cases i)
      case 0
      then show ?thesis using i t by (simp add: contents_def)
    next
      case (Suc j)
      then have "j < used ?s'" using i u' by simp
      then show ?thesis using i Suc
        by (simp add: contents_def unat_next shift_idxS del: upt_Suc)
    qed
  qed
  show ?thesis using p inv' c u' by simp
qed

text \<open>
  The handlers run in interrupt context and can arrive between the statements of
  \<open>pop\<close>. A push never moves \<open>q_tail\<close> and, when the queue is not empty, never
  writes the slot at \<open>q_tail\<close>: what \<open>pop\<close> has read stays what a \<open>pop\<close> after
  the push would read. So each call can be taken as one step.
\<close>

lemma isr_push_keeps_front:
  assumes "q_tail s \<noteq> q_head s"
  shows "q_tail (isr_push k ts s) = q_tail s"
    and "q (isr_push k ts s) ! unat (q_tail s) = q s ! unat (q_tail s)"
proof -
  show "q_tail (isr_push k ts s) = q_tail s" by (simp add: isr_push_def Let_def)
  from assms have "unat (q_head s) \<noteq> unat (q_tail s)" by (simp add: word_eq_unat)
  then show "q (isr_push k ts s) ! unat (q_tail s) = q s ! unat (q_tail s)"
    by (simp add: isr_push_def Let_def)
qed

subsection \<open>Simulation of the bounded FIFO\<close>

lemma fifo_len: "length xs \<le> 63 \<Longrightarrow> length (snd (fifo_exec c xs)) \<le> 63"
  by (cases "(c, xs)" rule: fifo_exec.cases) auto

lemma sim_exec:
  assumes "ring_inv s"
  shows "fst (exec c s) = fst (fifo_exec c (contents s))"
    and "contents (snd (exec c s)) = snd (fifo_exec c (contents s))"
    and "ring_inv (snd (exec c s))"
proof -
  have "fst (exec c s) = fst (fifo_exec c (contents s)) \<and>
        contents (snd (exec c s)) = snd (fifo_exec c (contents s)) \<and> ring_inv (snd (exec c s))"
  proof (cases c)
    case (Push k ts)
    show ?thesis
    proof (cases "used s = 63")
      case True
      with assms Push show ?thesis
        by (simp add: push_full length_contents)
    next
      case False
      moreover have "used s < 64" by (simp add: used_def)
      ultimately have "used s < 63" by simp
      with assms Push False show ?thesis
        by (simp add: push_ok push_inv length_contents Let_def)
    qed
  next
    case Pop
    show ?thesis
    proof (cases "used s = 0")
      case True
      then have "contents s = []" by (simp add: contents_def)
      with assms Pop True show ?thesis by (simp add: pop_empty)
    next
      case False
      from pop_ok [OF assms False] obtain s' where
        s': "pop s = Some (hd (contents s), s')" "ring_inv s'" "contents s' = tl (contents s)"
        by blast
      from False have "contents s \<noteq> []" using length_contents [of s] by auto
      then obtain x xs where "contents s = x # xs" by (cases "contents s") auto
      with s' Pop show ?thesis by simp
    qed
  qed
  then show "fst (exec c s) = fst (fifo_exec c (contents s))"
    and "contents (snd (exec c s)) = snd (fifo_exec c (contents s))"
    and "ring_inv (snd (exec c s))" by simp_all
qed

lemma sim_run:
  "ring_inv s \<Longrightarrow> fst (run cs s) = fst (fifo_run cs (contents s)) \<and>
     contents (snd (run cs s)) = snd (fifo_run cs (contents s)) \<and> ring_inv (snd (run cs s))"
proof (induction cs arbitrary: s)
  case Nil
  then show ?case by simp
next
  case (Cons c cs)
  note e = sim_exec [OF Cons.prems, of c]
  from Cons.IH [OF e(3)] e(1,2) show ?case
    by (simp add: split_beta)
qed

lemma n_pending_Cons: "n_pending (x # os) = n_pending os +
    (if x = Enqueued then 1 else 0) - (if is_Dequeued x then 1 else 0)"
  by (simp add: n_pending_def)

lemma fifo_pending:
  "length xs \<le> 63 \<Longrightarrow> n_pending (fst (fifo_run cs xs)) = int (length (snd (fifo_run cs xs))) - int (length xs) \<and> length (snd (fifo_run cs xs)) \<le> 63"
proof (induction cs arbitrary: xs)
  case Nil
  then show ?case by (simp add: n_pending_def)
next
  case (Cons c cs)
  from fifo_len [OF Cons.prems] have l: "length (snd (fifo_exec c xs)) \<le> 63" .
  have step: "int (length (snd (fifo_exec c xs))) = int (length xs) +
     (if fst (fifo_exec c xs) = Enqueued then 1 else 0) - (if is_Dequeued (fst (fifo_exec c xs)) then 1 else 0)"
    by (cases "(c, xs)" rule: fifo_exec.cases) auto
  from Cons.IH [OF l] step show ?case
    by (simp add: split_beta n_pending_Cons)
qed

lemma fifo_run_pushes:
  "length xs + n \<le> 63 \<Longrightarrow> fst (fifo_run (replicate n (Push k ts)) xs) = replicate n Enqueued"
  by (induction n arbitrary: xs) (simp_all add: split_beta)

lemma n_pending_replicate: "n_pending (replicate n Enqueued) = int n"
  by (simp add: n_pending_def)

lemma ring_inv_init: "ring_inv fw_init"
  by (simp add: ring_inv_def fw_init_def)

lemma contents_init: "contents fw_init = []"
  by (simp add: contents_def used_def fw_init_def)

lemma run_init:
  "fst (run cs fw_init) = fst (fifo_run cs [])"
  "contents (snd (run cs fw_init)) = snd (fifo_run cs [])"
  "ring_inv (snd (run cs fw_init))"
  using sim_run [OF ring_inv_init, of cs] by (simp_all add: contents_init)

lemma pending_is_used: "n_pending (fst (run cs fw_init)) = int (used (snd (run cs fw_init)))"
proof -
  have "n_pending (fst (fifo_run cs [])) = int (length (snd (fifo_run cs [])))"
    using fifo_pending [of "[]" cs] by simp
  then show ?thesis by (simp add: run_init(1,2) [symmetric] length_contents)
qed

section \<open>Claims about the queue\<close>

text \<open>
  Claim C1. Starting from the empty queue, after any sequence of \<open>isr_push\<close> and
  \<open>pop\<close> calls the number of pending events (enqueued and not yet dequeued) is below
  the 64 slots of the array: it is between 0 and 63. A further \<open>isr_push\<close> leaves the
  whole state as it is exactly when 63 events are pending, which is when the code finds the
  queue full: the new event is dropped and no queued record is overwritten.
\<close>

theorem isr_queue_bounded_drop_newest:
  "0 \<le> n_pending (fst (run cs fw_init)) \<and> n_pending (fst (run cs fw_init)) < 64 \<and>
   ((isr_push k ts (snd (run cs fw_init)) = snd (run cs fw_init)) =
    (n_pending (fst (run cs fw_init)) = 63))"
proof -
  let ?s = "snd (run cs fw_init)"
  have inv: "ring_inv ?s" by (rule run_init)
  have u: "used ?s < 64" by (simp add: used_def)
  have "(isr_push k ts ?s = ?s) = (used ?s = 63)"
    using push_full [OF inv] push_ok(2) [OF inv] by blast
  then show ?thesis using u by (simp add: pending_is_used)
qed

theorem isr_queue_bounded_drop_newest_witness:
  "n_pending (fst (run (replicate 63 (Push (CHR ''T'') 7)) fw_init)) = 63 \<and>
   isr_push (CHR ''R'') 9 (snd (run (replicate 63 (Push (CHR ''T'') 7)) fw_init)) =
     snd (run (replicate 63 (Push (CHR ''T'') 7)) fw_init)"
proof -
  have "n_pending (fst (run (replicate 63 (Push (CHR ''T'') 7)) fw_init)) = 63"
    by (simp add: run_init fifo_run_pushes n_pending_replicate)
  then show ?thesis
    using isr_queue_bounded_drop_newest [of "replicate 63 (Push (CHR ''T'') 7)" "CHR ''R''" 9]
    by simp
qed

text \<open>
  Claim C8. The head/tail ring behaves as a bounded FIFO queue: for every sequence of
  calls from the empty queue, each call has the same outcome in the ring as in the FIFO
  list (a pop returns the oldest record that was pushed and not yet popped, both fields as
  pushed), the slots in use hold the FIFO's list, and \<open>pop\<close> returns \<open>false\<close>
  exactly when that list is empty.
\<close>

theorem ring_refines_bounded_fifo:
  "fst (run cs fw_init) = fst (fifo_run cs []) \<and>
   contents (snd (run cs fw_init)) = snd (fifo_run cs []) \<and>
   (pop (snd (run cs fw_init)) = None) = (snd (fifo_run cs []) = [])"
proof -
  let ?s = "snd (run cs fw_init)"
  have inv: "ring_inv ?s" by (rule run_init)
  have "(pop ?s = None) = (used ?s = 0)"
    using inv by (simp add: pop_def ring_empty_iff)
  also have "\<dots> = (contents ?s = [])"
    using length_contents [of ?s] by auto
  finally show ?thesis by (simp add: run_init)
qed

theorem ring_refines_bounded_fifo_witness:
  "fst (run [Push (CHR ''T'') 1, Push (CHR ''R'') 2, Pop, Pop, Pop] fw_init) =
     [Enqueued, Enqueued, Dequeued \<lparr>kind = CHR ''T'', dev_ts = 1\<rparr>,
      Dequeued \<lparr>kind = CHR ''R'', dev_ts = 2\<rparr>, Empty]"
  using ring_refines_bounded_fifo [of "[Push (CHR ''T'') 1, Push (CHR ''R'') 2, Pop, Pop, Pop]"]
  by simp

section \<open>Lemmas about the text output and the drain loop\<close>

lemma digit_in: "d < 10 \<Longrightarrow> digit d \<in> set ''0123456789''"
proof -
  assume "d < 10"
  then have "d \<in> {0, 1, 2, 3, 4, 5, 6, 7, 8, 9}" by auto
  then show ?thesis by (auto simp: digit_def)
qed

lemma dec_digits: "set (dec n) \<subseteq> set ''0123456789''"
proof (induction n rule: dec.induct)
  case (1 n)
  show ?case
  proof (cases "n < 10")
    case True
    then show ?thesis using digit_in [of n] by (subst dec.simps) simp
  next
    case False
    have "n mod 10 < 10" by simp
    from digit_in [OF this] 1 [OF False] False show ?thesis
      by (subst dec.simps) simp
  qed
qed

lemma dec_length: "n < 10 ^ k \<Longrightarrow> 0 < k \<Longrightarrow> length (dec n) \<le> k"
proof (induction k arbitrary: n)
  case 0
  then show ?case by simp
next
  case (Suc k)
  show ?case
  proof (cases "n < 10")
    case True
    then show ?thesis by (subst dec.simps) simp
  next
    case False
    with Suc.prems have k: "0 < k" by (cases k) auto
    from Suc.prems have "n div 10 < 10 ^ k"
      by (simp add: less_mult_imp_div_less mult.commute)
    from Suc.IH [OF this k] False show ?thesis by (subst dec.simps) simp
  qed
qed

lemma dec_length64: "length (dec (unat (x :: 64 word))) \<le> 20"
proof -
  have "unat x < 2 ^ 64" using unsigned_less [of x] by simp
  also have "(2::nat) ^ 64 < 10 ^ 20" by simp
  finally show ?thesis by (rule dec_length) simp
qed

lemma dec_length32: "length (dec (unat (x :: 32 word))) \<le> 10"
proof -
  have "unat x < 2 ^ 32" using unsigned_less [of x] by simp
  also have "(2::nat) ^ 32 < 10 ^ 10" by simp
  finally show ?thesis by (rule dec_length) simp
qed

lemma format_evt:
  "format L (evt_fmt r) [Str k, ULL ts] =
     ''role='' @ role_name r @ '' evt='' @ k @ '' dev_ts='' @ dec (unat ts) @ ''\<newline>''"
  by (cases r) (simp_all add: evt_fmt_def role_name_def)

lemma format_hb:
  "format L (hb_fmt r) [UL x] =
     ''role='' @ role_name r @ '' evt=HEARTBEAT host_ts='' @ dec (unat x) @ ''\<newline>''"
  by (cases r) (simp_all add: hb_fmt_def role_name_def)

lemma format_range:
  "format L (range_fmt r) [UL x] =
     ''role='' @ role_name r @ '' evt=RANGE host_ts='' @ dec (unat x) @ ''\<newline>''"
  by (cases r) (simp_all add: range_fmt_def role_name_def)

lemma format_dist:
  "format L ''Range: %.2f m\<newline>'' [Flt m] = ''Range: '' @ printf_f2 L m @ '' m\<newline>''"
  by simp

lemma role_name_length: "length (role_name r) \<le> 6"
  by (cases r) (simp_all add: role_name_def)

lemma send_event_ok:
  "send_event L r e s = Inr (s\<lparr> evt_out := evt_out s @
     [wire_record r (if kind e = CHR ''T'' then ''TX'' else ''RX'') ''dev_ts'' (dec (unat (dev_ts e)))] \<rparr>)"
proof -
  let ?k = "if kind e = CHR ''T'' then ''TX'' else ''RX''"
  let ?text = "format L (evt_fmt r) [Str ?k, ULL (dev_ts e)]"
  have txt_eq: "?text = wire_record r ?k ''dev_ts'' (dec (unat (dev_ts e)))"
    by (simp only: format_evt wire_record_def) simp
  have "length ?text \<le> 127"
    using dec_length64 [of "dev_ts e"] role_name_length [of r]
    by (simp add: format_evt)
  then have "snprintf 128 ?text = (?text, length ?text)"
    by (simp add: snprintf_def)
  then show ?thesis
    unfolding send_event_def txt_eq by (simp add: write_n_def)
qed

lemma pop_keeps_out: "pop s = Some (e, s') \<Longrightarrow> evt_out s' = evt_out s"
  by (auto simp: pop_def split: if_splits)

lemma drain_ok:
  "ring_inv s \<Longrightarrow> used s = n \<Longrightarrow>
   \<exists>s'. drain L r s = Some (Inr s') \<and>
     evt_out s' = evt_out s @ map (\<lambda>e. wire_record r (if kind e = CHR ''T'' then ''TX'' else ''RX'')
                                      ''dev_ts'' (dec (unat (dev_ts e)))) (contents s) \<and>
     ring_inv s' \<and> used s' = 0"
proof (induction n arbitrary: s)
  case 0
  then have "pop s = None" by (simp add: pop_empty)
  moreover from 0 have "contents s = []" by (simp add: contents_def)
  ultimately show ?case using 0 by (subst drain.simps) simp
next
  case (Suc n)
  let ?line = "\<lambda>e. wire_record r (if kind e = CHR ''T'' then ''TX'' else ''RX'')
                                      ''dev_ts'' (dec (unat (dev_ts e)))"
  from Suc.prems have ne: "used s \<noteq> 0" by simp
  from pop_ok [OF Suc.prems(1) ne] obtain s1 where
    s1: "pop s = Some (hd (contents s), s1)" "ring_inv s1" "contents s1 = tl (contents s)"
        "used s1 = used s - 1" by blast
  let ?e = "hd (contents s)"
  let ?s2 = "s1\<lparr> evt_out := evt_out s1 @ [?line ?e] \<rparr>"
  have inv2: "ring_inv ?s2" using s1(2) by (simp add: ring_inv_def)
  have u2: "used ?s2 = n" using s1(4) Suc.prems(2) by (simp add: used_def)
  have c2: "contents ?s2 = tl (contents s)" using s1(3) by (simp add: contents_def used_def)
  from Suc.IH [OF inv2 u2] obtain s' where
    s': "drain L r ?s2 = Some (Inr s')" "evt_out s' = evt_out ?s2 @ map ?line (contents ?s2)"
        "ring_inv s'" "used s' = 0" by blast
  have d: "drain L r s = drain L r ?s2"
    by (subst drain.simps) (simp add: s1(1) send_event_ok)
  from ne have "contents s \<noteq> []" using length_contents [of s] by auto
  then obtain x xs where cs: "contents s = x # xs" by (cases "contents s") auto
  from s'(1,3,4) d have "drain L r s = Some (Inr s')" "ring_inv s'" "used s' = 0" by simp_all
  moreover from s'(2) c2 pop_keeps_out [OF s1(1)] cs
  have "evt_out s' = evt_out s @ map ?line (contents s)" by simp
  ultimately show ?case by blast
qed

lemma exec_keeps_out: "evt_out (snd (exec c s)) = evt_out s"
  by (cases c) (auto simp: isr_push_def Let_def pop_def)

lemma run_keeps_out: "evt_out (snd (run cs s)) = evt_out s"
  by (induction cs arbitrary: s) (simp_all add: split_beta exec_keeps_out)

lemma evt_out_init: "evt_out fw_init = []"
  by (simp add: fw_init_def)

lemma ascii_digits: "c \<in> set ''0123456789'' \<Longrightarrow> (of_char c :: nat) < 128 \<and> c \<noteq> CHR 0x0A"
  by auto

lemma wire_record_shape:
  assumes k: "k = ''TX'' \<or> k = ''RX'' \<or> k = ''RANGE'' \<or> k = ''HEARTBEAT''"
    and key: "key = ''dev_ts'' \<or> key = ''host_ts''"
    and v: "set v \<subseteq> set ''0123456789''"
  shows "last (wire_record r k key v) = CHR 0x0A"
    and "CHR 0x0A \<notin> set (butlast (wire_record r k key v))"
    and "\<forall>c\<in>set (wire_record r k key v). (of_char c :: nat) < 128"
proof -
  have b: "butlast (wire_record r k key v) = ''role='' @ role_name r @ '' evt='' @ k @ '' '' @ key @ ''='' @ v"
    by (simp add: wire_record_def butlast_append)
  have rn: "\<forall>c\<in>set (role_name r). (of_char c :: nat) < 128 \<and> c \<noteq> CHR 0x0A"
    by (cases r) (simp_all add: role_name_def)
  have kk: "\<forall>c\<in>set k. (of_char c :: nat) < 128 \<and> c \<noteq> CHR 0x0A"
    using k by auto
  have ky: "\<forall>c\<in>set key. (of_char c :: nat) < 128 \<and> c \<noteq> CHR 0x0A"
    using key by auto
  have vv: "\<forall>c\<in>set v. (of_char c :: nat) < 128 \<and> c \<noteq> CHR 0x0A"
    using v ascii_digits by blast
  show "last (wire_record r k key v) = CHR 0x0A" by (simp add: wire_record_def)
  show "CHR 0x0A \<notin> set (butlast (wire_record r k key v))"
    unfolding b using rn kk ky vv by auto
  show "\<forall>c\<in>set (wire_record r k key v). (of_char c :: nat) < 128"
    unfolding wire_record_def using rn kk ky vv by auto
qed


subsection \<open>Heartbeat and range callback\<close>

lemma heartbeat_eq:
  "heartbeat L r now s =
     (if 2000 \<le> now - last_hb s then
        s\<lparr> last_hb := now,
           evt_out := evt_out s @ [wire_record r ''HEARTBEAT'' ''host_ts'' (dec (unat now div 1000))] \<rparr>
      else s)"
proof -
  let ?txt = "format L (hb_fmt r) [UL (now div 1000)]"
  have d: "unat (now div 1000) = unat now div 1000" by (simp add: unat_div)
  have txt_eq: "?txt = wire_record r ''HEARTBEAT'' ''host_ts'' (dec (unat now div 1000))"
    by (simp only: format_hb wire_record_def d) simp
  have "length ?txt \<le> 63"
    using dec_length32 [of "now div 1000"] role_name_length [of r]
    by (simp add: format_hb)
  then have "fst (snprintf 64 ?txt) = ?txt" by (simp add: snprintf_def)
  then show ?thesis
    unfolding heartbeat_def txt_eq by (simp add: HEARTBEAT_MS_def strlen_def)
qed

lemma via_Some: "via (Some d) f = Inr (f d)"
  by (simp add: via_def)

lemma range_record_eq:
  "fst (snprintf 96 (format L (range_fmt r) [UL (now div 1000)])) =
     wire_record r ''RANGE'' ''host_ts'' (dec (unat now div 1000))"
proof -
  let ?txt = "format L (range_fmt r) [UL (now div 1000)]"
  have d: "unat (now div 1000) = unat now div 1000" by (simp add: unat_div)
  have txt_eq: "?txt = wire_record r ''RANGE'' ''host_ts'' (dec (unat now div 1000))"
    by (simp only: format_range wire_record_def d) simp
  have "length ?txt \<le> 95"
    using dec_length32 [of "now div 1000"] role_name_length [of r]
    by (simp add: format_range)
  then have "fst (snprintf 96 ?txt) = ?txt" by (simp add: snprintf_def)
  then show ?thesis by (simp only: txt_eq)
qed

lemma dist_message_eq:
  assumes "length (printf_f2 L m) \<le> 53"
  shows "snprintf 64 (format L ''Range: %.2f m\<newline>'' [Flt m]) =
           (''Range: '' @ printf_f2 L m @ '' m\<newline>'', length (''Range: '' @ printf_f2 L m @ '' m\<newline>''))"
  using assms by (simp add: snprintf_def)

lemma newRange_Some:
  "newRange L r en now (Some d) s =
     Inr (s\<lparr> serial_out := serial_out s @ serial_line L (getShortAddress d) (getRange d) (getRXPower d),
             evt_out := evt_out s @ [wire_record r ''RANGE'' ''host_ts'' (dec (unat now div 1000))],
             udp_out := udp_out s @
               (if en then [fst (snprintf 64 (format L ''Range: %.2f m\<newline>'' [Flt (getRange d)]))]
                else []) \<rparr>)"
  unfolding newRange_def
  by (simp add: via_Some and_then_def Let_def range_record_eq strlen_def del: format.simps)

lemma newRange_plot_Some:
  "newRange_plot L (Some d) s =
     (case write_n (fst (snprintf 64 (format L ''Range: %.2f m\<newline>'' [Flt (getRange d)])))
                   (snd (snprintf 64 (format L ''Range: %.2f m\<newline>'' [Flt (getRange d)]))) of
        Inl err \<Rightarrow> Inl err
      | Inr bytes \<Rightarrow>
          Inr (s\<lparr> serial_out := serial_out s @ serial_line L (getShortAddress d) (getRange d) (getRXPower d),
                  udp_out := udp_out s @ [bytes] \<rparr>))"
  unfolding newRange_plot_def
  by (simp add: via_Some and_then_def Let_def split_beta del: format.simps split: sum.split)


section \<open>Lemmas about the Pairer\<close>

lemma cands_set:
  "set (filter (\<lambda>i. qualifies h rx (P ! i)) [0..<length P]) = {i. i < length P \<and> qualifies h rx (P ! i)}"
  by auto

lemma cands_sorted: "sorted_wrt (<) (filter Q [0..<n])"
  by (simp add: sorted_wrt_filter)

lemma sorted_wrt_before:
  assumes "sorted_wrt (<) xs" "k < length xs" "j \<in> set xs" "j < xs ! k"
  shows "\<exists>m<k. xs ! m = (j::nat)"
proof -
  from assms(3) obtain m where m: "m < length xs" "xs ! m = j" by (auto simp: in_set_conv_nth)
  have "m < k"
  proof (rule ccontr)
    assume "\<not> m < k"
    then have "k = m \<or> k < m" by auto
    then show False
    proof
      assume "k = m" with m assms(4) show False by simp
    next
      assume "k < m"
      with assms(1) m(1) have "xs ! k < xs ! m" by (simp add: sorted_wrt_nth_less)
      with m assms(4) show False by simp
    qed
  qed
  with m show ?thesis by blast
qed

lemma winner_Some:
  assumes "winner h rx P = Some i"
  shows "i < length P" and "qualifies h rx (P ! i)"
    and "\<forall>j<length P. qualifies h rx (P ! j) \<longrightarrow> lat rx (P ! i) \<le> lat rx (P ! j)"
    and "\<forall>j<length P. qualifies h rx (P ! j) \<and> lat rx (P ! j) = lat rx (P ! i) \<longrightarrow> i \<le> j"
proof -
  define cands where "cands = filter (\<lambda>i. qualifies h rx (P ! i)) [0..<length P]"
  define Q where "Q = (\<lambda>i. list_all (\<lambda>j. lat rx (P ! i) \<le> lat rx (P ! j)) cands)"
  have cs: "set cands = {i. i < length P \<and> qualifies h rx (P ! i)}"
    unfolding cands_def by (rule cands_set)
  from assms have "find Q cands = Some i"
    by (simp add: winner_def Let_def cands_def Q_def)
  then obtain k where k: "k < length cands" "Q (cands ! k)" "i = cands ! k" "\<forall>m<k. \<not> Q (cands ! m)"
    by (auto simp: find_Some_iff)
  from k(1,3) have mem: "i \<in> set cands" by simp
  with cs show "i < length P" and "qualifies h rx (P ! i)" by auto
  from k(2,3) have min: "\<forall>j\<in>set cands. lat rx (P ! i) \<le> lat rx (P ! j)"
    by (simp add: Q_def list_all_iff)
  with cs show "\<forall>j<length P. qualifies h rx (P ! j) \<longrightarrow> lat rx (P ! i) \<le> lat rx (P ! j)"
    by auto
  show "\<forall>j<length P. qualifies h rx (P ! j) \<and> lat rx (P ! j) = lat rx (P ! i) \<longrightarrow> i \<le> j"
  proof (intro allI impI)
    fix j assume j: "j < length P" "qualifies h rx (P ! j) \<and> lat rx (P ! j) = lat rx (P ! i)"
    show "i \<le> j"
    proof (rule ccontr)
      assume "\<not> i \<le> j"
      then have lt: "j < cands ! k" using k(3) by simp
      from j cs have jm: "j \<in> set cands" by auto
      have "sorted_wrt (<) cands" unfolding cands_def by (rule cands_sorted)
      from sorted_wrt_before [OF this k(1) jm lt] obtain m where m: "m < k" "cands ! m = j"
        by blast
      from j min have "Q j" by (simp add: Q_def list_all_iff)
      with m k(4) show False by auto
    qed
  qed
qed

lemma winner_exists:
  assumes "j < length P" "qualifies h rx (P ! j)"
  shows "\<exists>i. winner h rx P = Some i"
proof -
  define cands where "cands = filter (\<lambda>i. qualifies h rx (P ! i)) [0..<length P]"
  have cs: "set cands = {i. i < length P \<and> qualifies h rx (P ! i)}"
    unfolding cands_def by (rule cands_set)
  with assms have ne: "set cands \<noteq> {}" by auto
  have "finite ((\<lambda>i. lat rx (P ! i)) ` set cands)" by simp
  moreover from ne have "(\<lambda>i. lat rx (P ! i)) ` set cands \<noteq> {}" by simp
  ultimately obtain v where v: "v \<in> (\<lambda>i. lat rx (P ! i)) ` set cands"
      "\<forall>w\<in>(\<lambda>i. lat rx (P ! i)) ` set cands. v \<le> w"
    using Min_in Min_le by (metis (no_types, lifting))
  then obtain i where i: "i \<in> set cands" "v = lat rx (P ! i)" by auto
  with v(2) have "list_all (\<lambda>j. lat rx (P ! i) \<le> lat rx (P ! j)) cands"
    by (simp add: list_all_iff)
  with i(1) have "find (\<lambda>i. list_all (\<lambda>j. lat rx (P ! i) \<le> lat rx (P ! j)) cands) cands \<noteq> None"
    by (auto simp: find_None_iff)
  then show ?thesis by (auto simp: winner_def Let_def cands_def)
qed

lemma step_links:
  "\<exists>new. links (pairer_step e s) = links s @ new \<and>
     (\<forall>l\<in>set new. latency l = host_timestamp (rx_event l) - host_timestamp (tx_event l) \<and>
                  0 \<le> latency l \<and> latency l \<le> horizon s) \<and>
     horizon (pairer_step e s) = horizon s"
proof (cases "ev_kind e")
  case TX
  then show ?thesis by (simp add: pairer_step_def on_tx_def Let_def)
next
  case RX
  show ?thesis
  proof (cases "winner (horizon s) e (pending s (opposite (ev_role e)))")
    case None
    with RX show ?thesis by (simp add: pairer_step_def on_rx_def Let_def)
  next
    case (Some i)
    from winner_Some(2) [OF Some] have "qualifies (horizon s) e (pending s (opposite (ev_role e)) ! i)" .
    then have "0 \<le> lat e (pending s (opposite (ev_role e)) ! i) \<and>
               lat e (pending s (opposite (ev_role e)) ! i) \<le> horizon s"
      by (simp add: qualifies_def)
    with RX Some show ?thesis
      by (simp add: pairer_step_def on_rx_def Let_def) (simp add: lat_def)
  qed
next
  case RANGE
  then show ?thesis by (simp add: pairer_step_def on_range_def)
next
  case HEARTBEAT
  then show ?thesis by (simp add: pairer_step_def)
qed

lemma run_links:
  "\<exists>new. links (pairer_run es s) = links s @ new \<and>
     (\<forall>l\<in>set new. latency l = host_timestamp (rx_event l) - host_timestamp (tx_event l) \<and>
                  0 \<le> latency l \<and> latency l \<le> horizon s) \<and>
     horizon (pairer_run es s) = horizon s"
proof (induction es arbitrary: s)
  case Nil
  then show ?case by (simp add: pairer_run_def)
next
  case (Cons e es)
  from step_links [of e s] obtain n1 where
    n1: "links (pairer_step e s) = links s @ n1"
        "\<forall>l\<in>set n1. latency l = host_timestamp (rx_event l) - host_timestamp (tx_event l) \<and>
                  0 \<le> latency l \<and> latency l \<le> horizon s"
        "horizon (pairer_step e s) = horizon s" by blast
  from Cons.IH [of "pairer_step e s"] obtain n2 where
    n2: "links (pairer_run es (pairer_step e s)) = links (pairer_step e s) @ n2"
        "\<forall>l\<in>set n2. latency l = host_timestamp (rx_event l) - host_timestamp (tx_event l) \<and>
                  0 \<le> latency l \<and> latency l \<le> horizon (pairer_step e s)"
        "horizon (pairer_run es (pairer_step e s)) = horizon (pairer_step e s)" by blast
  have r: "pairer_run (e # es) s = pairer_run es (pairer_step e s)" by (simp add: pairer_run_def)
  have "links (pairer_run (e # es) s) = links s @ (n1 @ n2)" using n1(1) n2(1) r by simp
  moreover have "\<forall>l\<in>set (n1 @ n2). latency l = host_timestamp (rx_event l) - host_timestamp (tx_event l) \<and>
                  0 \<le> latency l \<and> latency l \<le> horizon s"
    using n1(2) n2(2) n1(3) by auto
  moreover have "horizon (pairer_run (e # es) s) = horizon s" using n1(3) n2(3) r by simp
  ultimately show ?case by blast
qed

lemma run_append: "pairer_run (es @ es') s = pairer_run es' (pairer_run es s)"
  by (simp add: pairer_run_def)


lemma on_rx_Some:
  assumes "winner (horizon s) e (pending s (opposite (ev_role e))) = Some i"
  shows "links (on_rx e s) = links s @
           [\<lparr>tx_event = tx (pending s (opposite (ev_role e)) ! i), rx_event = e,
             latency = host_timestamp e - host_timestamp (tx (pending s (opposite (ev_role e)) ! i))\<rparr>]"
    and "pending (on_rx e s) (opposite (ev_role e)) =
           take i (pending s (opposite (ev_role e))) @ drop (Suc i) (pending s (opposite (ev_role e)))"
    and "pending (on_rx e s) (ev_role e) = pending s (ev_role e)"
proof -
  have ne: "ev_role e \<noteq> opposite (ev_role e)"
    by (cases "ev_role e") (simp_all add: opposite_def)
  show "links (on_rx e s) = links s @
           [\<lparr>tx_event = tx (pending s (opposite (ev_role e)) ! i), rx_event = e,
             latency = host_timestamp e - host_timestamp (tx (pending s (opposite (ev_role e)) ! i))\<rparr>]"
    using assms by (simp add: on_rx_def Let_def lat_def)
  show "pending (on_rx e s) (opposite (ev_role e)) =
           take i (pending s (opposite (ev_role e))) @ drop (Suc i) (pending s (opposite (ev_role e)))"
    using assms by (simp add: on_rx_def Let_def)
  show "pending (on_rx e s) (ev_role e) = pending s (ev_role e)"
    using assms ne by (simp add: on_rx_def Let_def)
qed

subsection \<open>Pending sets are in enqueue order\<close>

lemma run_snoc: "pairer_run (es @ [e]) s = pairer_step e (pairer_run es s)"
  by (simp add: pairer_run_def)

lemma run_horizon: "horizon (pairer_run es (pairer_init h fh)) = h"
  using run_links [of es "pairer_init h fh"] by (auto simp: pairer_init_def)

lemma sorted_wrt_remove_nth:
  assumes "sorted_wrt R xs"
  shows "sorted_wrt R (take i xs @ drop (Suc i) xs)"
proof -
  from assms have a: "sorted_wrt R (take i xs @ drop i xs)" by simp
  have d: "drop (Suc i) xs = tl (drop i xs)" by (simp add: drop_Suc tl_drop)
  show ?thesis
  proof (cases "drop i xs")
    case Nil
    with a d show ?thesis by (simp add: sorted_wrt_append)
  next
    case (Cons y ys)
    with a d show ?thesis by (simp add: sorted_wrt_append)
  qed
qed

lemma arrivals_snoc:
  assumes "arrivals es h r ps xs"
  shows "arrivals (es @ [e]) h r ps xs"
proof -
  from assms have b: "\<forall>p\<in>set ps. p < length es"
    by (simp add: arrivals_def list_all_iff)
  then have "map (\<lambda>p. \<lparr>tx = (es @ [e]) ! p, expiry = host_timestamp ((es @ [e]) ! p) + h\<rparr>) ps =
             map (\<lambda>p. \<lparr>tx = es ! p, expiry = host_timestamp (es ! p) + h\<rparr>) ps"
    by (simp add: nth_append)
  with assms b show ?thesis
    by (auto simp: arrivals_def list_all_iff nth_append less_Suc_eq)
qed

lemma arrivals_new:
  assumes "arrivals es h r ps xs" and "ev_kind e = TX" and "ev_role e = r"
  shows "arrivals (es @ [e]) h r (ps @ [length es])
           (xs @ [\<lparr>tx = e, expiry = host_timestamp e + h\<rparr>])"
proof -
  from assms(1) have b: "\<forall>p\<in>set ps. p < length es"
    by (simp add: arrivals_def list_all_iff)
  from arrivals_snoc [OF assms(1), of e] b assms(2,3) show ?thesis
    by (simp add: arrivals_def list_all_iff sorted_wrt_append)
qed

lemma arrivals_filter:
  assumes "arrivals es h r ps xs"
  shows "\<exists>ps'. arrivals es h r ps' (filter Q xs)"
proof -
  let ?g = "\<lambda>p. \<lparr>tx = es ! p, expiry = host_timestamp (es ! p) + h\<rparr>"
  from assms have xs: "xs = map ?g ps" and s: "sorted_wrt (<) ps"
    and a: "list_all (\<lambda>p. p < length es \<and> ev_kind (es ! p) = TX \<and> ev_role (es ! p) = r) ps"
    by (simp_all add: arrivals_def)
  have "filter Q xs = map ?g (filter (Q \<circ> ?g) ps)" unfolding xs by (rule filter_map)
  moreover have "sorted_wrt (<) (filter (Q \<circ> ?g) ps)" using s by (rule sorted_wrt_filter)
  moreover have "list_all (\<lambda>p. p < length es \<and> ev_kind (es ! p) = TX \<and> ev_role (es ! p) = r)
                   (filter (Q \<circ> ?g) ps)"
    using a by (simp add: list_all_iff)
  ultimately show ?thesis unfolding arrivals_def by blast
qed

lemma arrivals_remove:
  assumes "arrivals es h r ps xs"
  shows "arrivals es h r (take i ps @ drop (Suc i) ps) (take i xs @ drop (Suc i) xs)"
proof -
  from assms have xs: "xs = map (\<lambda>p. \<lparr>tx = es ! p, expiry = host_timestamp (es ! p) + h\<rparr>) ps"
    and s: "sorted_wrt (<) ps"
    and a: "\<forall>p\<in>set ps. p < length es \<and> ev_kind (es ! p) = TX \<and> ev_role (es ! p) = r"
    by (simp_all add: arrivals_def list_all_iff)
  have sub: "set (take i ps @ drop (Suc i) ps) \<subseteq> set ps"
    using set_take_subset [of i ps] set_drop_subset [of "Suc i" ps] by auto
  from sorted_wrt_remove_nth [OF s, of i] sub a show ?thesis
    unfolding arrivals_def xs by (auto simp: list_all_iff take_map drop_map)
qed

lemma pending_in_arrival_order:
  "\<exists>ps. arrivals es h r ps (pending (pairer_run es (pairer_init h fh)) r)"
proof (induction es arbitrary: r rule: rev_induct)
  case Nil
  show ?case
    by (intro exI [of _ "[]"]) (simp add: pairer_run_def pairer_init_def arrivals_def)
next
  case (snoc e es)
  let ?s = "pairer_run es (pairer_init h fh)"
  have hz: "horizon ?s = h" by (rule run_horizon)
  from snoc.IH [of r] obtain ps where ps: "arrivals es h r ps (pending ?s r)" by blast
  note ps' = arrivals_snoc [OF ps, of e]
  show ?case
  proof (cases "ev_kind e")
    case TX
    have "\<exists>qs. arrivals (es @ [e]) h r qs
            (((pending ?s)(ev_role e := pending ?s (ev_role e) @ [\<lparr>tx = e, expiry = host_timestamp e + h\<rparr>])) r)"
    proof (cases "r = ev_role e")
      case True
      with arrivals_new [OF ps TX] show ?thesis by auto
    next
      case False
      with ps' show ?thesis by auto
    qed
    then obtain qs where "arrivals (es @ [e]) h r qs
            (((pending ?s)(ev_role e := pending ?s (ev_role e) @ [\<lparr>tx = e, expiry = host_timestamp e + h\<rparr>])) r)"
      by blast
    from arrivals_filter [OF this] TX hz show ?thesis
      by (simp add: run_snoc pairer_step_def on_tx_def Let_def)
  next
    case RX
    show ?thesis
    proof (cases "winner h e (pending ?s (opposite (ev_role e)))")
      case None
      with RX hz ps' show ?thesis
        by (auto simp: run_snoc pairer_step_def on_rx_def Let_def)
    next
      case (Some i)
      show ?thesis
      proof (cases "r = opposite (ev_role e)")
        case True
        with RX hz Some arrivals_remove [OF ps', of i] show ?thesis
          by (auto simp: run_snoc pairer_step_def on_rx_def Let_def)
      next
        case False
        with RX hz Some ps' show ?thesis
          by (auto simp: run_snoc pairer_step_def on_rx_def Let_def)
      qed
    qed
  next
    case RANGE
    with ps' show ?thesis
      by (auto simp: run_snoc pairer_step_def on_range_def)
  next
    case HEARTBEAT
    with ps' show ?thesis
      by (auto simp: run_snoc pairer_step_def)
  qed
qed

lemma arrivals_nth:
  assumes "arrivals es h r ps xs" and "k < length xs"
  shows "tx (xs ! k) = es ! (ps ! k)" and "length ps = length xs"
  using assms by (simp_all add: arrivals_def)

lemma arrivals_mono:
  assumes "arrivals es h r ps xs" and "i \<le> k" and "k < length xs"
  shows "ps ! i \<le> ps ! k"
proof (cases "i = k")
  case True
  then show ?thesis by simp
next
  case False
  with assms(2) have "i < k" by simp
  moreover from assms(1,3) have "k < length ps" and "sorted_wrt (<) ps"
    by (simp_all add: arrivals_def)
  ultimately have "ps ! i < ps ! k" by (simp add: sorted_wrt_nth_less)
  then show ?thesis by simp
qed


section \<open>Lemmas about counter mode\<close>

lemma length_bytes_of: "length (bytes_of w) = 16"
  by (simp add: bytes_of_def)

lemma length_xor_bytes: "length (xor_bytes xs ys) = min (length xs) (length ys)"
  by (simp add: xor_bytes_def)

lemma xor_twice: "(x XOR k) XOR k = x" for x k :: "8 word"
  by (simp add: xor.assoc)

lemma xor_bytes_cancel: "length xs \<le> length ks \<Longrightarrow> xor_bytes (xor_bytes xs ks) ks = xs"
proof (induction xs arbitrary: ks)
  case Nil
  then show ?case by (simp add: xor_bytes_def)
next
  case (Cons x xs)
  then obtain k ks' where ks: "ks = k # ks'" by (cases ks) auto
  with Cons.prems have "length xs \<le> length ks'" by simp
  from Cons.IH [OF this] ks show ?case by (simp add: xor_bytes_def xor_twice)
qed

lemma gctr_Nil: "gctr E key cb [] = []"
  by (subst gctr.simps) simp

lemma gctr_length: "length (gctr E key cb xs) = length xs"
proof (induction E key cb xs rule: gctr.induct)
  case (1 E key cb xs)
  show ?case
  proof (cases "xs = []")
    case True
    then show ?thesis by (simp add: gctr_Nil)
  next
    case False
    from 1 [OF False] False show ?thesis
      by (subst gctr.simps) (simp add: length_xor_bytes length_bytes_of)
  qed
qed

lemma gctr_involutive: "gctr E key cb (gctr E key cb xs) = xs"
proof (induction E key cb xs rule: gctr.induct)
  case (1 E key cb xs)
  show ?case
  proof (cases "xs = []")
    case True
    then show ?thesis by (simp add: gctr_Nil)
  next
    case False
    let ?kb = "bytes_of (E key cb)"
    let ?hd = "xor_bytes (take 16 xs) ?kb"
    let ?tl = "gctr E key (inc32 cb) (drop 16 xs)"
    have g: "gctr E key cb xs = ?hd @ ?tl" using False by (subst gctr.simps) simp
    have lh: "length ?hd = min (length xs) 16"
      by (simp add: length_xor_bytes length_bytes_of)
    have ne: "?hd @ ?tl \<noteq> []" using False lh by (cases xs) auto
    have tk: "take 16 (?hd @ ?tl) = ?hd"
    proof (cases "16 \<le> length xs")
      case True
      with lh show ?thesis by simp
    next
      case False
      then have "drop 16 xs = []" by simp
      then show ?thesis using lh by (simp add: gctr_Nil)
    qed
    have dr: "drop 16 (?hd @ ?tl) = ?tl"
    proof (cases "16 \<le> length xs")
      case True
      with lh show ?thesis by simp
    next
      case False
      then have "drop 16 xs = []" by simp
      then show ?thesis using lh by (simp add: gctr_Nil)
    qed
    have c: "xor_bytes ?hd ?kb = take 16 xs"
      by (rule xor_bytes_cancel) (simp add: length_bytes_of)
    have "gctr E key cb (?hd @ ?tl) = xor_bytes (take 16 (?hd @ ?tl)) ?kb @
            gctr E key (inc32 cb) (drop 16 (?hd @ ?tl))"
      by (subst gctr.simps) (simp only: ne if_False)
    also have "\<dots> = take 16 xs @ drop 16 xs"
      unfolding tk dr c using 1 [OF False] by simp
    finally show ?thesis unfolding g by simp
  qed
qed

lemma length_gcm_tag: "tag_len \<le> 16 \<Longrightarrow> length (gcm_tag E ctx iv aad c tag_len) = tag_len"
  by (simp add: gcm_tag_def Let_def length_bytes_of)

lemma setkey_128:
  "mbedtls_gcm_setkey E key (AES_KEY_LEN * 8) =
     Inr \<lparr> ctx_key = take 16 key, ctx_H = E (take 16 key) 0 \<rparr>"
  by (simp add: mbedtls_gcm_setkey_def AES_KEY_LEN_def)

lemma encrypt_succeeds:
  assumes "iv \<noteq> []" "length plaintext \<le> 128"
  shows "\<exists>ciphertext tag. aesGcmEncrypt E key iv plaintext = Inr (ciphertext, tag)"
  using assms
  by (simp add: aesGcmEncrypt_def setkey_128 mbedtls_gcm_crypt_and_tag_def gcm_bad_input_def
        AES_IV_LEN_def AES_TAG_LEN_def Let_def)


section \<open>Claims about the wire records\<close>

text \<open>
  Claim C2. After any history of the queue since start-up, the drain loop of \<open>loop()\<close>
  terminates and leaves the queue empty; it has sent one datagram for each record that was
  enqueued and not yet dequeued, in queue order. Each datagram is the line
  \<open>role=<ROLE> evt=<KIND> dev_ts=<N>\<close> ended by its only newline, in ASCII, where
  \<open><ROLE>\<close> is the board's role, \<open><KIND>\<close> is \<open>TX\<close> when the record's kind
  is \<open>'T'\<close> and \<open>RX\<close> otherwise, and \<open><N>\<close> is the decimal rendering of
  the timestamp given to \<open>isr_push\<close>.
\<close>

theorem drain_emits_wire_records:
  "\<exists>s'. drain L r (snd (run cs fw_init)) = Some (Inr s') \<and>
     evt_out s' = map (\<lambda>e. wire_record r (if kind e = CHR ''T'' then ''TX'' else ''RX'')
                             ''dev_ts'' (dec (unat (dev_ts e)))) (snd (fifo_run cs [])) \<and>
     pop s' = None \<and>
     (\<forall>l\<in>set (evt_out s'). last l = CHR 0x0A \<and> CHR 0x0A \<notin> set (butlast l) \<and>
                             (\<forall>c\<in>set l. (of_char c :: nat) < 128))"
proof -
  let ?s = "snd (run cs fw_init)"
  define line where "line = (\<lambda>e :: EventRec. wire_record r (if kind e = CHR ''T'' then ''TX'' else ''RX'')
                             ''dev_ts'' (dec (unat (dev_ts e))))"
  have inv: "ring_inv ?s" by (rule run_init)
  from drain_ok [OF inv refl, of L r] obtain s' where
    s': "drain L r ?s = Some (Inr s')" "evt_out s' = evt_out ?s @ map line (contents ?s)"
        "ring_inv s'" "used s' = 0" unfolding line_def by blast
  have out: "evt_out s' = map line (snd (fifo_run cs []))"
    using s'(2) by (simp add: run_keeps_out evt_out_init run_init)
  have p: "pop s' = None" using s'(3,4) by (rule pop_empty)
  have shape: "last (line e) = CHR 0x0A \<and> CHR 0x0A \<notin> set (butlast (line e)) \<and>
               (\<forall>c\<in>set (line e). (of_char c :: nat) < 128)" for e
    unfolding line_def
    using wire_record_shape [of "if kind e = CHR ''T'' then ''TX'' else ''RX''" "''dev_ts''"
            "dec (unat (dev_ts e))" r] dec_digits [of "unat (dev_ts e)"]
    by (simp del: set_simps)
  have "\<forall>l\<in>set (evt_out s'). last l = CHR 0x0A \<and> CHR 0x0A \<notin> set (butlast l) \<and>
                             (\<forall>c\<in>set l. (of_char c :: nat) < 128)"
    unfolding out using shape by auto
  with s'(1) out p show ?thesis unfolding line_def by blast
qed

theorem drain_emits_wire_records_witness:
  "\<exists>s'. drain cm_lib TAG (snd (run [Push (CHR ''T'') 123, Push (CHR ''R'') 456] fw_init)) = Some (Inr s') \<and>
     evt_out s' = [''role=TAG evt=TX dev_ts=123\<newline>'', ''role=TAG evt=RX dev_ts=456\<newline>'']"
proof -
  from drain_emits_wire_records [of cm_lib TAG "[Push (CHR ''T'') 123, Push (CHR ''R'') 456]"]
  obtain s' where
    "drain cm_lib TAG (snd (run [Push (CHR ''T'') 123, Push (CHR ''R'') 456] fw_init)) = Some (Inr s')"
    "evt_out s' = map (\<lambda>e. wire_record TAG (if kind e = CHR ''T'' then ''TX'' else ''RX'')
                             ''dev_ts'' (dec (unat (dev_ts e))))
                   (snd (fifo_run [Push (CHR ''T'') 123, Push (CHR ''R'') 456] []))"
    by blast
  then show ?thesis
    by (intro exI [of _ s']) (simp add: wire_record_def role_name_def dec.simps digit_def)
qed

text \<open>
  Claim C3 says that every heartbeat record carries \<open>host_ts=0\<close>. The code formats
  \<open>now/1000\<close>: the first heartbeat after start-up, at \<open>millis() = 2000\<close>,
  carries \<open>host_ts=2\<close>.
\<close>

theorem heartbeat_host_ts_counterexample:
  "evt_out (heartbeat cm_lib TAG 2000 fw_init) = [''role=TAG evt=HEARTBEAT host_ts=2\<newline>''] \<and>
   evt_out (heartbeat cm_lib TAG 2000 fw_init) \<noteq> [''role=TAG evt=HEARTBEAT host_ts=0\<newline>''] \<and>
   evt_out (heartbeat cm_lib TAG 2000 fw_init) \<noteq> [''role=TAG evt=HEARTBEAT host_ts=0'']"
  by (simp add: heartbeat_eq fw_init_def wire_record_def role_name_def dec.simps digit_def)

text \<open>
  Claim C3, amended. A pass of the main loop at \<open>millis() = now\<close> sends a heartbeat
  exactly when \<open>now - last_hb\<close> (unsigned, 32 bits) is at least 2000; the line is
  \<open>role=<ROLE> evt=HEARTBEAT host_ts=<N>\<close> and a newline, where \<open><N>\<close> is
  \<open>now / 1000\<close> in decimal, the whole seconds since start-up, and \<open>last_hb\<close>
  becomes \<open>now\<close>.
\<close>

theorem heartbeat_record:
  "heartbeat L r now s =
     (if 2000 \<le> now - last_hb s then
        s\<lparr> last_hb := now,
           evt_out := evt_out s @ [wire_record r ''HEARTBEAT'' ''host_ts'' (dec (unat now div 1000))] \<rparr>
      else s)"
  by (rule heartbeat_eq)

theorem heartbeat_record_witness:
  "(2000 :: 32 word) \<le> 61000 - last_hb fw_init \<and>
   evt_out (heartbeat cm_lib ANCHOR 61000 fw_init) = [''role=ANCHOR evt=HEARTBEAT host_ts=61\<newline>'']"
  using heartbeat_record [of cm_lib ANCHOR 61000 fw_init]
  by (simp add: fw_init_def wire_record_def role_name_def dec.simps digit_def)

text \<open>
  Claim C6. When the distant device is known, \<open>newRange\<close> returns normally and has
  sent exactly one datagram to the event port: the line
  \<open>role=<ROLE> evt=RANGE host_ts=<N>\<close> and a newline, where \<open><N>\<close> is
  \<open>millis() / 1000\<close> in decimal, a whole number of seconds that fits 64 bits.
\<close>

theorem newRange_emits_range_record:
  "\<exists>s'. newRange L r en now (Some d) s = Inr s' \<and>
     evt_out s' = evt_out s @ [wire_record r ''RANGE'' ''host_ts'' (dec (unat now div 1000))] \<and>
     unat now div 1000 < 2 ^ 64"
proof -
  have "unat now < 2 ^ 32" using unsigned_less [of now] by simp
  then have "unat now div 1000 < 2 ^ 64" by simp
  then show ?thesis by (simp add: newRange_Some)
qed

theorem newRange_emits_range_record_witness:
  "\<exists>s'. newRange cm_lib TAG True 5432 (Some \<lparr>getShortAddress = 0x4A3C, getRange = 56, getRXPower = -5602\<rparr>) fw_init = Inr s' \<and>
     evt_out s' = [''role=TAG evt=RANGE host_ts=5\<newline>'']"
  using newRange_emits_range_record [of cm_lib TAG True 5432
          "\<lparr>getShortAddress = 0x4A3C, getRange = 56, getRXPower = -5602\<rparr>" fw_init]
  by (simp add: fw_init_def wire_record_def role_name_def dec.simps digit_def)


text \<open>
  Claim C7. When the distant device is known and the \<open>%.2f\<close> rendering of the
  distance has at most 53 characters and no newline (as every rendering of a \<open>float\<close>
  has), the sketches that report events send to the distance port the one line
  \<open>Range: <d> m\<close> ended by its only newline when \<open>ENABLE_UDP_RANGE\<close> is
  set, and nothing when it is not; it is set in the tag sketch and not in the anchor sketch.
  The distance-only tag sketch always sends that line.
\<close>

theorem range_message_format:
  assumes "length (printf_f2 L (getRange d)) \<le> 53"
    and "CHR 0x0A \<notin> set (printf_f2 L (getRange d))"
  shows "\<exists>s1 s2.
     newRange L r en now (Some d) s = Inr s1 \<and>
     udp_out s1 = udp_out s @ (if en then [''Range: '' @ printf_f2 L (getRange d) @ '' m\<newline>''] else []) \<and>
     newRange_plot L (Some d) s = Inr s2 \<and>
     udp_out s2 = udp_out s @ [''Range: '' @ printf_f2 L (getRange d) @ '' m\<newline>''] \<and>
     last (''Range: '' @ printf_f2 L (getRange d) @ '' m\<newline>'') = CHR 0x0A \<and>
     CHR 0x0A \<notin> set (butlast (''Range: '' @ printf_f2 L (getRange d) @ '' m\<newline>'')) \<and>
     ENABLE_UDP_RANGE TAG \<and> \<not> ENABLE_UDP_RANGE ANCHOR"
proof -
  let ?msg = "''Range: '' @ printf_f2 L (getRange d) @ '' m\<newline>''"
  note m = dist_message_eq [OF assms(1)]
  have a: "newRange L r en now (Some d) s = Inr (s\<lparr> serial_out := serial_out s @ serial_line L (getShortAddress d) (getRange d) (getRXPower d),
             evt_out := evt_out s @ [wire_record r ''RANGE'' ''host_ts'' (dec (unat now div 1000))],
             udp_out := udp_out s @ (if en then [?msg] else []) \<rparr>)"
    by (simp only: newRange_Some m fst_conv)
  have b: "newRange_plot L (Some d) s = Inr (s\<lparr> serial_out := serial_out s @ serial_line L (getShortAddress d) (getRange d) (getRXPower d),
                  udp_out := udp_out s @ [?msg] \<rparr>)"
    by (simp only: newRange_plot_Some m fst_conv snd_conv) (simp add: write_n_def)
  have c: "last ?msg = CHR 0x0A" by simp
  have "butlast ?msg = ''Range: '' @ printf_f2 L (getRange d) @ '' m''"
    by (simp add: butlast_append)
  then have e: "CHR 0x0A \<notin> set (butlast ?msg)" using assms(2) by simp
  have f: "ENABLE_UDP_RANGE TAG \<and> \<not> ENABLE_UDP_RANGE ANCHOR" by (simp add: ENABLE_UDP_RANGE_def)
  show ?thesis unfolding a b using c e f by simp
qed

theorem range_message_format_witness:
  "length (printf_f2 cm_lib (getRange \<lparr>getShortAddress = 0x4A3C, getRange = 56, getRXPower = -5602\<rparr>)) \<le> 53 \<and>
   CHR 0x0A \<notin> set (printf_f2 cm_lib (getRange \<lparr>getShortAddress = 0x4A3C, getRange = 56, getRXPower = -5602\<rparr>)) \<and>
   (\<exists>s1 s2.
     newRange cm_lib TAG (ENABLE_UDP_RANGE TAG) 5432
        (Some \<lparr>getShortAddress = 0x4A3C, getRange = 56, getRXPower = -5602\<rparr>) fw_init = Inr s1 \<and>
     udp_out s1 = [''Range: 0.56 m\<newline>''] \<and>
     newRange_plot cm_lib (Some \<lparr>getShortAddress = 0x4A3C, getRange = 56, getRXPower = -5602\<rparr>) fw_init = Inr s2 \<and>
     udp_out s2 = [''Range: 0.56 m\<newline>''])"
proof -
  let ?d = "\<lparr>getShortAddress = 0x4A3C, getRange = 56 :: int, getRXPower = -5602 :: int\<rparr>"
  have t: "printf_f2 cm_lib (getRange ?d) = ''0.56''"
    by (simp add: cm_lib_def cm2_def dec.simps digit_def)
  have t2: "printf_f2 cm_lib (56 :: int) = ''0.56''"
    by (simp add: cm_lib_def cm2_def dec.simps digit_def)
  have h1: "length (printf_f2 cm_lib (getRange ?d)) \<le> 53" by (simp only: t) simp
  have h2: "CHR 0x0A \<notin> set (printf_f2 cm_lib (getRange ?d))" by (simp only: t) simp
  from range_message_format [OF h1 h2, of TAG "ENABLE_UDP_RANGE TAG" 5432 fw_init]
  obtain s1 s2 where
    "newRange cm_lib TAG (ENABLE_UDP_RANGE TAG) 5432 (Some ?d) fw_init = Inr s1"
    "udp_out s1 = udp_out fw_init @ (if ENABLE_UDP_RANGE TAG then [''Range: '' @ printf_f2 cm_lib (getRange ?d) @ '' m\<newline>''] else [])"
    "newRange_plot cm_lib (Some ?d) fw_init = Inr s2"
    "udp_out s2 = udp_out fw_init @ [''Range: '' @ printf_f2 cm_lib (getRange ?d) @ '' m\<newline>'']"
    by blast
  then have "newRange cm_lib TAG (ENABLE_UDP_RANGE TAG) 5432 (Some ?d) fw_init = Inr s1 \<and>
     udp_out s1 = [''Range: 0.56 m\<newline>''] \<and>
     newRange_plot cm_lib (Some ?d) fw_init = Inr s2 \<and>
     udp_out s2 = [''Range: 0.56 m\<newline>'']"
    by (simp add: t2 fw_init_def ENABLE_UDP_RANGE_def)
  then show ?thesis using h1 h2 by blast
qed

text \<open>
  Claim C10. When \<open>getDistantDevice()\<close> returns a null pointer, \<open>newRange\<close> of
  the three sketches that send UDP returns with the state as it was: nothing is sent or
  printed. For no device pointer at all does \<open>newRange\<close> end in a null dereference.
\<close>

theorem newRange_null_device:
  "newRange L r en now None s = Inr s \<and>
   newRange_plot L None s = Inr s \<and>
   newRange L r en now dev s \<noteq> Inl NullDeref \<and>
   newRange_plot L dev s \<noteq> Inl NullDeref"
proof -
  have a: "newRange L r en now None s = Inr s" by (simp add: newRange_def)
  have b: "newRange_plot L None s = Inr s" by (simp add: newRange_plot_def)
  have c: "newRange L r en now dev s \<noteq> Inl NullDeref"
    by (cases dev) (simp_all only: a newRange_Some, simp_all)
  have d: "newRange_plot L dev s \<noteq> Inl NullDeref"
    by (cases dev) (simp_all add: b newRange_plot_Some write_n_def del: format.simps split: sum.split)
  from a b c d show ?thesis by blast
qed

section \<open>Claims about the Pairer\<close>

text \<open>
  Claim C4. For every event stream and every horizon, each link the Pairer has produced
  has \<open>latency = rx.host_timestamp - tx.host_timestamp\<close> with
  \<open>0 \<le> latency \<le> horizon\<close>; and the links produced after a stream stay as they
  are, in their places, whatever events follow: later links are only appended.
\<close>

theorem paired_link_latency_within_horizon:
  "(\<forall>l\<in>set (links (pairer_run es (pairer_init h fh))).
      latency l = host_timestamp (rx_event l) - host_timestamp (tx_event l) \<and>
      0 \<le> latency l \<and> latency l \<le> h) \<and>
   prefix (links (pairer_run es (pairer_init h fh))) (links (pairer_run (es @ es') (pairer_init h fh)))"
proof -
  from run_links [of es "pairer_init h fh"]
  have a: "\<forall>l\<in>set (links (pairer_run es (pairer_init h fh))).
      latency l = host_timestamp (rx_event l) - host_timestamp (tx_event l) \<and>
      0 \<le> latency l \<and> latency l \<le> h"
    by (auto simp: pairer_init_def)
  from run_links [of es' "pairer_run es (pairer_init h fh)"]
  have b: "prefix (links (pairer_run es (pairer_init h fh))) (links (pairer_run (es @ es') (pairer_init h fh)))"
    by (auto simp: run_append)
  from a b show ?thesis by blast
qed

theorem paired_link_latency_within_horizon_witness:
  "links (pairer_run
      [\<lparr>ev_role = TAG, ev_kind = TX, device_timestamp = Some 100, host_timestamp = 0, ingestion_sequence = 0\<rparr>,
       \<lparr>ev_role = ANCHOR, ev_kind = RX, device_timestamp = Some 200, host_timestamp = 0.050, ingestion_sequence = 1\<rparr>]
      (pairer_init 0.3 1)) =
    [\<lparr>tx_event = \<lparr>ev_role = TAG, ev_kind = TX, device_timestamp = Some 100, host_timestamp = 0, ingestion_sequence = 0\<rparr>,
      rx_event = \<lparr>ev_role = ANCHOR, ev_kind = RX, device_timestamp = Some 200, host_timestamp = 0.050, ingestion_sequence = 1\<rparr>,
      latency = 0.050\<rparr>] \<and>
   (0::rat) \<le> 0.050 \<and> (0.050::rat) \<le> 0.3"
proof -
  let ?es = "[\<lparr>ev_role = TAG, ev_kind = TX, device_timestamp = Some 100, host_timestamp = 0, ingestion_sequence = 0\<rparr>,
       \<lparr>ev_role = ANCHOR, ev_kind = RX, device_timestamp = Some 200, host_timestamp = 0.050, ingestion_sequence = 1\<rparr>]"
  have l: "links (pairer_run ?es (pairer_init 0.3 1)) =
    [\<lparr>tx_event = \<lparr>ev_role = TAG, ev_kind = TX, device_timestamp = Some 100, host_timestamp = 0, ingestion_sequence = 0\<rparr>,
      rx_event = \<lparr>ev_role = ANCHOR, ev_kind = RX, device_timestamp = Some 200, host_timestamp = 0.050, ingestion_sequence = 1\<rparr>,
      latency = 0.050\<rparr>]"
    by (simp add: pairer_run_def pairer_step_def pairer_init_def on_tx_def on_rx_def Let_def
          expired_def opposite_def winner_def qualifies_def lat_def)
  from paired_link_latency_within_horizon [of ?es "0.3" 1 "[]"] show ?thesis
    unfolding l by simp
qed

text \<open>
  Claim C5. After any event stream, when an RX event arrives and some pending TX of the
  opposite role is within the horizon, the Pairer pairs the RX with a candidate of
  smallest latency; among the candidates of that latency it is the one enqueued earliest:
  the pending list holds its entries in the order their TX events arrived in the stream,
  and the winner is the first of them in the list and in the stream. The Pairer appends
  the link of that TX and the RX, removes exactly that entry from the opposite role's
  pending set and leaves the other pending set as it is. With TAG TX at 0.000 s and
  0.010 s, ANCHOR RX at 0.015 s and horizon 0.3 s, the only link pairs the RX with the TX
  at 0.010 s, with latency 0.005 s.
\<close>

theorem rx_pairs_nearest_pending_tx:
  "(ev_kind e = RX \<and> s = pairer_run es (pairer_init h fh) \<and>
    P = pending s (opposite (ev_role e)) \<and> j < length P \<and> qualifies h e (P ! j) \<longrightarrow>
    (\<exists>ps i. arrivals es h (opposite (ev_role e)) ps P \<and>
       i < length P \<and> qualifies h e (P ! i) \<and>
       (\<forall>k<length P. qualifies h e (P ! k) \<longrightarrow>
          lat e (P ! i) \<le> lat e (P ! k) \<and>
          (lat e (P ! k) = lat e (P ! i) \<longrightarrow> i \<le> k \<and> ps ! i \<le> ps ! k)) \<and>
       links (pairer_step e s) = links s @
          [\<lparr>tx_event = es ! (ps ! i), rx_event = e,
            latency = host_timestamp e - host_timestamp (es ! (ps ! i))\<rparr>] \<and>
       pending (pairer_step e s) (opposite (ev_role e)) = take i P @ drop (Suc i) P \<and>
       pending (pairer_step e s) (ev_role e) = pending s (ev_role e))) \<and>
   links (pairer_run
      [\<lparr>ev_role = TAG, ev_kind = TX, device_timestamp = None, host_timestamp = 0.000, ingestion_sequence = 0\<rparr>,
       \<lparr>ev_role = TAG, ev_kind = TX, device_timestamp = None, host_timestamp = 0.010, ingestion_sequence = 1\<rparr>,
       \<lparr>ev_role = ANCHOR, ev_kind = RX, device_timestamp = None, host_timestamp = 0.015, ingestion_sequence = 2\<rparr>]
      (pairer_init 0.3 fh)) =
    [\<lparr>tx_event = \<lparr>ev_role = TAG, ev_kind = TX, device_timestamp = None, host_timestamp = 0.010, ingestion_sequence = 1\<rparr>,
      rx_event = \<lparr>ev_role = ANCHOR, ev_kind = RX, device_timestamp = None, host_timestamp = 0.015, ingestion_sequence = 2\<rparr>,
      latency = 0.005\<rparr>]"
proof (intro conjI impI)
  assume a: "ev_kind e = RX \<and> s = pairer_run es (pairer_init h fh) \<and>
    P = pending s (opposite (ev_role e)) \<and> j < length P \<and> qualifies h e (P ! j)"
  then have P: "P = pending s (opposite (ev_role e))" and rx: "ev_kind e = RX"
    and s: "s = pairer_run es (pairer_init h fh)" by simp_all
  have hz: "horizon s = h" unfolding s by (rule run_horizon)
  from pending_in_arrival_order [of es h "opposite (ev_role e)" fh] obtain ps where
    ps: "arrivals es h (opposite (ev_role e)) ps P" unfolding P s by blast
  from a winner_exists [of j P h e] obtain i where i: "winner (horizon s) e P = Some i"
    unfolding hz by blast
  note w = winner_Some [OF i, unfolded hz]
  have step: "pairer_step e s = on_rx e s" using rx by (simp add: pairer_step_def)
  note r = on_rx_Some [OF i [unfolded P], folded P]
  have txi: "tx (P ! i) = es ! (ps ! i)" using arrivals_nth(1) [OF ps w(1)] .
  have tie: "\<forall>k<length P. qualifies h e (P ! k) \<longrightarrow>
          lat e (P ! i) \<le> lat e (P ! k) \<and>
          (lat e (P ! k) = lat e (P ! i) \<longrightarrow> i \<le> k \<and> ps ! i \<le> ps ! k)"
  proof (intro allI impI conjI)
    fix k assume k: "k < length P" "qualifies h e (P ! k)"
    from w(3) k show "lat e (P ! i) \<le> lat e (P ! k)" by blast
    assume "lat e (P ! k) = lat e (P ! i)"
    with w(4) k show ik: "i \<le> k" by blast
    from arrivals_mono [OF ps ik k(1)] show "ps ! i \<le> ps ! k" .
  qed
  have "arrivals es h (opposite (ev_role e)) ps P \<and>
       i < length P \<and> qualifies h e (P ! i) \<and>
       (\<forall>k<length P. qualifies h e (P ! k) \<longrightarrow>
          lat e (P ! i) \<le> lat e (P ! k) \<and>
          (lat e (P ! k) = lat e (P ! i) \<longrightarrow> i \<le> k \<and> ps ! i \<le> ps ! k)) \<and>
       links (pairer_step e s) = links s @
          [\<lparr>tx_event = es ! (ps ! i), rx_event = e,
            latency = host_timestamp e - host_timestamp (es ! (ps ! i))\<rparr>] \<and>
       pending (pairer_step e s) (opposite (ev_role e)) = take i P @ drop (Suc i) P \<and>
       pending (pairer_step e s) (ev_role e) = pending s (ev_role e)"
    using ps w(1,2) tie r unfolding step txi by simp
  then show "\<exists>ps i. arrivals es h (opposite (ev_role e)) ps P \<and>
       i < length P \<and> qualifies h e (P ! i) \<and>
       (\<forall>k<length P. qualifies h e (P ! k) \<longrightarrow>
          lat e (P ! i) \<le> lat e (P ! k) \<and>
          (lat e (P ! k) = lat e (P ! i) \<longrightarrow> i \<le> k \<and> ps ! i \<le> ps ! k)) \<and>
       links (pairer_step e s) = links s @
          [\<lparr>tx_event = es ! (ps ! i), rx_event = e,
            latency = host_timestamp e - host_timestamp (es ! (ps ! i))\<rparr>] \<and>
       pending (pairer_step e s) (opposite (ev_role e)) = take i P @ drop (Suc i) P \<and>
       pending (pairer_step e s) (ev_role e) = pending s (ev_role e)"
    by blast
next
  show "links (pairer_run
      [\<lparr>ev_role = TAG, ev_kind = TX, device_timestamp = None, host_timestamp = 0.000, ingestion_sequence = 0\<rparr>,
       \<lparr>ev_role = TAG, ev_kind = TX, device_timestamp = None, host_timestamp = 0.010, ingestion_sequence = 1\<rparr>,
       \<lparr>ev_role = ANCHOR, ev_kind = RX, device_timestamp = None, host_timestamp = 0.015, ingestion_sequence = 2\<rparr>]
      (pairer_init 0.3 fh)) =
    [\<lparr>tx_event = \<lparr>ev_role = TAG, ev_kind = TX, device_timestamp = None, host_timestamp = 0.010, ingestion_sequence = 1\<rparr>,
      rx_event = \<lparr>ev_role = ANCHOR, ev_kind = RX, device_timestamp = None, host_timestamp = 0.015, ingestion_sequence = 2\<rparr>,
      latency = 0.005\<rparr>]"
    by (simp add: pairer_run_def pairer_step_def pairer_init_def on_tx_def on_rx_def Let_def
          expired_def opposite_def winner_def qualifies_def lat_def)
qed

theorem rx_pairs_nearest_pending_tx_witness:
  "ev_kind \<lparr>ev_role = ANCHOR, ev_kind = RX, device_timestamp = None, host_timestamp = 0.015, ingestion_sequence = 2\<rparr> = RX \<and>
   (0::nat) < length (pending (pairer_run
      [\<lparr>ev_role = TAG, ev_kind = TX, device_timestamp = None, host_timestamp = 0.010, ingestion_sequence = 0\<rparr>,
       \<lparr>ev_role = TAG, ev_kind = TX, device_timestamp = None, host_timestamp = 0.010, ingestion_sequence = 1\<rparr>]
      (pairer_init 0.3 1)) TAG) \<and>
   qualifies 0.3 \<lparr>ev_role = ANCHOR, ev_kind = RX, device_timestamp = None, host_timestamp = 0.015, ingestion_sequence = 2\<rparr>
     (pending (pairer_run
      [\<lparr>ev_role = TAG, ev_kind = TX, device_timestamp = None, host_timestamp = 0.010, ingestion_sequence = 0\<rparr>,
       \<lparr>ev_role = TAG, ev_kind = TX, device_timestamp = None, host_timestamp = 0.010, ingestion_sequence = 1\<rparr>]
      (pairer_init 0.3 1)) TAG ! 0) \<and>
   links (pairer_run
      [\<lparr>ev_role = TAG, ev_kind = TX, device_timestamp = None, host_timestamp = 0.010, ingestion_sequence = 0\<rparr>,
       \<lparr>ev_role = TAG, ev_kind = TX, device_timestamp = None, host_timestamp = 0.010, ingestion_sequence = 1\<rparr>,
       \<lparr>ev_role = ANCHOR, ev_kind = RX, device_timestamp = None, host_timestamp = 0.015, ingestion_sequence = 2\<rparr>]
      (pairer_init 0.3 1)) =
    [\<lparr>tx_event = \<lparr>ev_role = TAG, ev_kind = TX, device_timestamp = None, host_timestamp = 0.010, ingestion_sequence = 0\<rparr>,
      rx_event = \<lparr>ev_role = ANCHOR, ev_kind = RX, device_timestamp = None, host_timestamp = 0.015, ingestion_sequence = 2\<rparr>,
      latency = 0.005\<rparr>]"
proof -
  define e where "e = \<lparr>ev_role = ANCHOR, ev_kind = RX, device_timestamp = None, host_timestamp = 0.015 :: rat, ingestion_sequence = 2\<rparr>"
  define t0 where "t0 = \<lparr>ev_role = TAG, ev_kind = TX, device_timestamp = None, host_timestamp = 0.010 :: rat, ingestion_sequence = 0\<rparr>"
  define t1 where "t1 = \<lparr>ev_role = TAG, ev_kind = TX, device_timestamp = None, host_timestamp = 0.010 :: rat, ingestion_sequence = 1\<rparr>"
  define s where "s = pairer_run [t0, t1] (pairer_init 0.3 1)"
  define P where "P = pending s (opposite (ev_role e))"
  have opp: "opposite (ev_role e) = TAG" by (simp add: e_def opposite_def)
  have Pv: "P = [\<lparr>tx = t0, expiry = 0.310\<rparr>, \<lparr>tx = t1, expiry = 0.310\<rparr>]"
    unfolding P_def opp s_def
    by (simp add: pairer_run_def pairer_step_def pairer_init_def on_tx_def Let_def expired_def
          t0_def t1_def)
  have ls: "links s = []"
    unfolding s_def
    by (simp add: pairer_run_def pairer_step_def pairer_init_def on_tx_def Let_def t0_def t1_def)
  have h1: "ev_kind e = RX" by (simp add: e_def)
  have h3: "0 < length P" by (simp add: Pv)
  have h4: "qualifies 0.3 e (P ! 0)"
    by (simp add: Pv qualifies_def lat_def e_def t0_def)
  have l01: "lat e (P ! 1) = lat e (P ! 0)" by (simp add: Pv lat_def t0_def t1_def)
  from rx_pairs_nearest_pending_tx [of e s "[t0, t1]" "0.3" 1 P 0] h1 h3 h4 s_def P_def
  obtain ps i where pi: "arrivals [t0, t1] 0.3 (opposite (ev_role e)) ps P"
      "i < length P"
      "\<forall>k<length P. qualifies 0.3 e (P ! k) \<longrightarrow>
          lat e (P ! i) \<le> lat e (P ! k) \<and>
          (lat e (P ! k) = lat e (P ! i) \<longrightarrow> i \<le> k \<and> ps ! i \<le> ps ! k)"
      "links (pairer_step e s) = links s @
          [\<lparr>tx_event = [t0, t1] ! (ps ! i), rx_event = e,
            latency = host_timestamp e - host_timestamp ([t0, t1] ! (ps ! i))\<rparr>]"
    by blast
  from pi(2) have "i = 0 \<or> i = 1" by (auto simp: Pv)
  then have "lat e (P ! 0) = lat e (P ! i)" using l01 by auto
  with pi(3) h3 h4 have "i \<le> 0" by blast
  then have i0: "i = 0" by simp
  from pi(1) h3 have "tx (P ! 0) = [t0, t1] ! (ps ! 0)" by (simp add: arrivals_def)
  then have first: "[t0, t1] ! (ps ! 0) = t0" by (simp add: Pv)
  have run: "pairer_run [t0, t1, e] (pairer_init 0.3 1) = pairer_step e s"
    by (simp add: s_def pairer_run_def)
  have "links (pairer_run [t0, t1, e] (pairer_init 0.3 1)) =
          [\<lparr>tx_event = t0, rx_event = e, latency = 0.005\<rparr>]"
    unfolding run pi(4) i0 first ls by (simp add: e_def t0_def)
  with h1 h3 h4 show ?thesis
    unfolding P_def opp s_def e_def t0_def t1_def by (simp add: opposite_def)
qed

section \<open>Claim about the encrypted packets\<close>

text \<open>
  Claim C9. For a 16-byte key, a 12-byte IV and a plaintext of at most 128 bytes, when
  \<open>aesGcmEncrypt\<close> returns 0 with a ciphertext and a tag, the tag has 16 bytes, the
  ciphertext has the length of the plaintext, and \<open>aesGcmDecrypt\<close> with the same key
  and IV, that tag and that ciphertext returns 0 and gives back the plaintext byte for
  byte. This holds for every block cipher \<open>E\<close>.
\<close>

theorem aes_gcm_round_trip:
  assumes "length key = 16" and "length iv = 12" and "length plaintext \<le> 128"
    and enc: "aesGcmEncrypt E key iv plaintext = Inr (ciphertext, tag)"
  shows "length tag = 16 \<and> length ciphertext = length plaintext \<and>
         aesGcmDecrypt E key iv tag ciphertext = Inr plaintext"
proof -
  let ?ctx = "\<lparr> ctx_key = take 16 key, ctx_H = E (take 16 key) 0 \<rparr>"
  let ?iv = "take AES_IV_LEN iv"
  from enc have ok: "\<not> gcm_bad_input (length ?iv) (length plaintext) AES_TAG_LEN"
    and ct: "ciphertext = gctr E (ctx_key ?ctx) (inc32 (gcm_j0 ?ctx ?iv)) plaintext"
    and tg: "tag = gcm_tag E ?ctx ?iv [] ciphertext AES_TAG_LEN"
    by (auto simp: aesGcmEncrypt_def setkey_128 mbedtls_gcm_crypt_and_tag_def Let_def
          split: if_splits)
  have lt: "length tag = 16" unfolding tg by (simp add: length_gcm_tag AES_TAG_LEN_def)
  have lc: "length ciphertext = length plaintext" unfolding ct by (rule gctr_length)
  have tt: "take AES_TAG_LEN tag = tag" using lt by (simp add: AES_TAG_LEN_def)
  have ok': "\<not> gcm_bad_input (length ?iv) (length ciphertext) (length tag)"
    using ok lt lc by (simp add: AES_TAG_LEN_def)
  have same: "gcm_tag E ?ctx ?iv [] ciphertext (length tag) = tag"
    using tg lt by (simp add: AES_TAG_LEN_def)
  have pt: "gctr E (ctx_key ?ctx) (inc32 (gcm_j0 ?ctx ?iv)) ciphertext = plaintext"
    unfolding ct by (rule gctr_involutive)
  have "aesGcmDecrypt E key iv tag ciphertext = Inr plaintext"
    unfolding aesGcmDecrypt_def setkey_128 tt mbedtls_gcm_auth_decrypt_def
    using ok' same pt by simp
  with lt lc show ?thesis by simp
qed

theorem aes_gcm_round_trip_witness:
  "length [0x11, 0x22, 0x33, 0x44, 0x55, 0x66, 0x77, 0x88, 0x99, 0xAA, 0xBB, 0xCC, 0xDD, 0xEE, 0xFF, 0x00 :: 8 word] = 16 \<and>
   length [1, 2, 3, 4, 5, 6, 7, 8, 9, 10, 11, 12 :: 8 word] = 12 \<and>
   length [0x37, 0x44, 0x30, 0x30, 0x2C, 0x31, 0x2E, 0x32, 0x33, 0x34, 0x0A :: 8 word] \<le> 128 \<and>
   (\<exists>ciphertext tag.
      aesGcmEncrypt (\<lambda>k b. b XOR block_of k)
        [0x11, 0x22, 0x33, 0x44, 0x55, 0x66, 0x77, 0x88, 0x99, 0xAA, 0xBB, 0xCC, 0xDD, 0xEE, 0xFF, 0x00]
        [1, 2, 3, 4, 5, 6, 7, 8, 9, 10, 11, 12]
        [0x37, 0x44, 0x30, 0x30, 0x2C, 0x31, 0x2E, 0x32, 0x33, 0x34, 0x0A] = Inr (ciphertext, tag) \<and>
      aesGcmDecrypt (\<lambda>k b. b XOR block_of k)
        [0x11, 0x22, 0x33, 0x44, 0x55, 0x66, 0x77, 0x88, 0x99, 0xAA, 0xBB, 0xCC, 0xDD, 0xEE, 0xFF, 0x00]
        [1, 2, 3, 4, 5, 6, 7, 8, 9, 10, 11, 12] tag ciphertext =
      Inr [0x37, 0x44, 0x30, 0x30, 0x2C, 0x31, 0x2E, 0x32, 0x33, 0x34, 0x0A])"
proof -
  let ?E = "\<lambda>(k :: bytes) (b :: block). b XOR block_of k"
  let ?key = "[0x11, 0x22, 0x33, 0x44, 0x55, 0x66, 0x77, 0x88, 0x99, 0xAA, 0xBB, 0xCC, 0xDD, 0xEE, 0xFF, 0x00 :: 8 word]"
  let ?iv = "[1, 2, 3, 4, 5, 6, 7, 8, 9, 10, 11, 12 :: 8 word]"
  let ?pt = "[0x37, 0x44, 0x30, 0x30, 0x2C, 0x31, 0x2E, 0x32, 0x33, 0x34, 0x0A :: 8 word]"
  have h1: "length ?key = 16" by simp
  have h2: "length ?iv = 12" by simp
  have h3: "length ?pt \<le> 128" by simp
  from encrypt_succeeds [of ?iv ?pt ?E ?key] obtain ciphertext tag where
    e: "aesGcmEncrypt ?E ?key ?iv ?pt = Inr (ciphertext, tag)" by auto
  from aes_gcm_round_trip [OF h1 h2 h3 e] e h1 h2 h3 show ?thesis by blast
qed

end
